theory Spec2Isabelle
  imports Main "HOL-Library.Word" "HOL-Library.Monad_Syntax"
begin

unbundle bit_operations_syntax

chapter \<open>TinyTRL: capacity arithmetic, Array, FlatMap/FlatSet, String and Stream::copy\<close>

text \<open>
  Conventions of the embedding.

  \<^item> The 64-bit little-endian build (\<open>__PLATFORM_X64\<close>) is modelled: \<open>Length\<close> and
    \<open>Offset\<close> are \<open>int64_t\<close>, \<open>Size\<close> of the containers is \<open>uint64_t\<close>.
  \<^item> Values of the signed types are \<open>int\<close>. In the containers and in \<open>String\<close> the
    source's own guards (\<open>length < MaxLength\<close>, \<open>length <= MaxLength - count\<close>, ...) keep
    the arithmetic inside \<open>int64_t\<close>. Where no guard does (the capacity arithmetic of
    \<open>TinyTRL_Math.inl\<close>, \<open>Array::erase\<close>) the two's-complement wrap-around is written
    out with \<open>s64\<close>.
  \<^item> The bit-packed fields (\<open>_capacity\<close>, \<open>_length\<close>, the short-length byte) are
    \<open>64 word\<close> and \<open>8 word\<close> with the source's masks.
  \<^item> A member function that mutates \<open>*this\<close> takes the object and returns the new
    object next to its C++ result.
  \<^item> Memory allocation is an explicit parameter of every function that allocates: the
    allocator says whether a request of a given size is granted.
  \<^item> A loop whose termination depends on its arguments is a
    \<^theory_text>\<open>partial_function (option)\<close>: \<open>None\<close> means that the call does not return.
    A call of \<open>String\<close> that copies outside the memory it may use has no result either
    (\<open>None\<close>).
\<close>

section \<open>TinyTRL\_Math.inl\<close>

text \<open>C++ \<open>/\<close> on signed integers truncates towards zero.\<close>

definition c_div :: "int \<Rightarrow> int \<Rightarrow> int" where
  "c_div a b = sgn a * sgn b * (\<bar>a\<bar> div \<bar>b\<bar>)"

text \<open>Two's-complement wrap-around of a 64-bit signed result.\<close>

definition s64 :: "int \<Rightarrow> int" where
  "s64 v = signed_take_bit 63 v"

definition saturate :: "int \<Rightarrow> int \<Rightarrow> int \<Rightarrow> int" where
  "saturate v minLimit maxLimit =
     (let temp = (if v > minLimit then v else minLimit)
      in if temp < maxLimit then temp else maxLimit)"

definition isPowerOfTwo :: "int \<Rightarrow> bool" where
  "isPowerOfTwo v \<longleftrightarrow> v \<ge> 1 \<and> v AND (v - 1) = 0"

text \<open>
  The loop \<open>while (!isPowerOfTwo(tempValue)) tempValue &= tempValue - 1;\<close> shared by
  \<open>floorPowerOfTwo\<close> and \<open>ceilPowerOfTwo\<close>. It does not return for \<open>tempValue \<le> 0\<close>.
\<close>

partial_function (option) clearLowestBits :: "int \<Rightarrow> int option" where
  "clearLowestBits t =
     (if \<not> isPowerOfTwo t then clearLowestBits (t AND s64 (t - 1)) else Some t)"

declare clearLowestBits.simps [code]

definition floorPowerOfTwo :: "int \<Rightarrow> int option" where
  "floorPowerOfTwo v = (if v > 2 then clearLowestBits v else Some v)"

definition ceilPowerOfTwo :: "int \<Rightarrow> int option" where
  "ceilPowerOfTwo v =
     (if v > 2 \<and> \<not> isPowerOfTwo v then clearLowestBits (s64 (push_bit 1 v)) else Some v)"

text \<open>The one-argument \<open>computeNextCapacity(capacity)\<close>.\<close>

definition computeNextCapacity :: "int \<Rightarrow> int option" where
  "computeNextCapacity capacity =
     (if capacity < 16 \<or> \<not> isPowerOfTwo capacity then
        do { nextCapacity \<leftarrow> ceilPowerOfTwo (s64 (capacity + 1));
             Some (if s64 (nextCapacity - capacity) < c_div capacity 3
                   then s64 (nextCapacity + c_div nextCapacity 2) else nextCapacity) }
      else Some (s64 (capacity + c_div capacity 2)))"

text \<open>The three-argument \<open>computeNextCapacity(capacity, currentCapacity, initialCapacity)\<close>.\<close>

definition computeNextCapacity3 :: "int \<Rightarrow> int \<Rightarrow> int \<Rightarrow> int option" where
  "computeNextCapacity3 capacity currentCapacity initialCapacity =
     (if currentCapacity \<noteq> initialCapacity then
        do { capacityNext \<leftarrow> computeNextCapacity currentCapacity;
             if capacity > capacityNext then
               (if \<not> isPowerOfTwo capacity then
                  do { fp \<leftarrow> floorPowerOfTwo capacity;
                       let capacityPred = s64 (fp + c_div fp 2) in
                       if capacityPred \<ge> capacity then Some capacityPred
                       else ceilPowerOfTwo capacity }
                else Some capacity)
             else Some capacityNext }
      else Some capacity)"

section \<open>Facts about the capacity arithmetic\<close>

lemma c_div_nonneg [simp]: "0 \<le> a \<Longrightarrow> 0 < b \<Longrightarrow> c_div a b = a div b"
  by (cases "a = 0") (simp_all add: c_div_def)

lemma isPowerOfTwo_power [simp]: "isPowerOfTwo (2 ^ k)"
proof -
  have "(2::int) ^ k AND (2 ^ k - 1) = 0"
    by (rule bit_eqI) (auto simp add: bit_simps simp flip: mask_eq_exp_minus_1)
  then show ?thesis by (simp add: isPowerOfTwo_def)
qed

lemma bit_of_interval:
  fixes x :: int
  assumes "2 ^ k \<le> x" "x < 2 ^ (k + 1)"
  shows "bit x k"
proof -
  have "x div 2 ^ k = 1"
    using assms by (intro int_div_pos_eq [where r = "x - 2 ^ k"]) auto
  then show ?thesis by (simp add: bit_iff_odd)
qed

lemma bit_lower_bound:
  fixes y :: int
  assumes "0 \<le> y" "bit y k"
  shows "2 ^ k \<le> y"
proof (rule ccontr)
  assume "\<not> 2 ^ k \<le> y"
  with assms(1) have "y div 2 ^ k = 0" by simp
  with assms(2) show False by (simp add: bit_iff_odd)
qed

lemma clear_step_bounds:
  assumes "1 \<le> t" "\<not> isPowerOfTwo t"
  shows "1 \<le> t AND (t - 1)" "t AND (t - 1) < t"
proof -
  have "0 \<le> t AND (t - 1)" using assms(1) by (simp add: AND_lower)
  moreover have "t AND (t - 1) \<noteq> 0" using assms by (simp add: isPowerOfTwo_def)
  ultimately show "1 \<le> t AND (t - 1)" by linarith
  have "t AND (t - 1) \<le> t - 1" using assms(1) by (intro AND_upper2) simp
  then show "t AND (t - 1) < t" by simp
qed

lemma clear_step_keeps_top:
  assumes "2 ^ k \<le> t" "t < 2 ^ (k + 1)" "\<not> isPowerOfTwo t"
  shows "2 ^ k \<le> t AND (t - 1)"
proof -
  have "t \<noteq> 2 ^ k" using assms(3) by auto
  with assms(1) have lo: "2 ^ k \<le> t - 1" by simp
  have "bit t k" using assms(1,2) by (rule bit_of_interval)
  moreover have "bit (t - 1) k" using lo assms(2) by (intro bit_of_interval) auto
  ultimately have "bit (t AND (t - 1)) k" by (simp add: bit_and_iff)
  moreover have "0 \<le> t AND (t - 1)"
    using assms(1) by (intro AND_lower) (smt (verit) zero_less_power)
  ultimately show ?thesis by (intro bit_lower_bound)
qed

lemma s64_id: "- (2 ^ 63) \<le> v \<Longrightarrow> v < 2 ^ 63 \<Longrightarrow> s64 v = v"
  unfolding s64_def by (rule signed_take_bit_int_eq_self) simp_all

lemma s64_bounds: "- (2 ^ 63) \<le> s64 v" "s64 v < 2 ^ 63"
  unfolding s64_def
  using signed_take_bit_int_greater_eq_minus_exp [of 63 v] signed_take_bit_int_less_exp [of 63 v]
  by simp_all

lemma clearLowestBits_total:
  assumes "2 ^ k \<le> t" "t < 2 ^ (k + 1)" "t < 2 ^ 63"
  shows "\<exists>r. clearLowestBits t = Some r \<and> isPowerOfTwo r \<and> 2 ^ k \<le> r \<and> r \<le> t"
  using assms
proof (induction "nat t" arbitrary: t rule: less_induct)
  case less
  have pos: "1 \<le> t" using less.prems(1) by (smt (verit) one_le_power)
  show ?case
  proof (cases "isPowerOfTwo t")
    case True
    then show ?thesis using less.prems by (subst clearLowestBits.simps) simp
  next
    case False
    let ?u = "t AND (t - 1)"
    have w: "s64 (t - 1) = t - 1" using pos less.prems(3) by (intro s64_id) simp_all
    have b: "1 \<le> ?u" "?u < t" using clear_step_bounds [OF pos False] by auto
    have top: "2 ^ k \<le> ?u" using less.prems(1,2) False by (rule clear_step_keeps_top)
    have "\<exists>r. clearLowestBits ?u = Some r \<and> isPowerOfTwo r \<and> 2 ^ k \<le> r \<and> r \<le> ?u"
      using b top less.prems(2,3) by (intro less.hyps) auto
    then obtain r where "clearLowestBits ?u = Some r" "isPowerOfTwo r" "2 ^ k \<le> r" "r \<le> ?u"
      by blast
    then show ?thesis using False b w by (subst clearLowestBits.simps) auto
  qed
qed

lemma power_interval_ex:
  fixes t :: int
  assumes "1 \<le> t"
  shows "\<exists>k. 2 ^ k \<le> t \<and> t < 2 ^ (k + 1)"
proof -
  have "\<exists>n. 2 ^ n \<le> nat t \<and> nat t < 2 ^ (n + 1)"
    using assms by (intro ex_power_ivl1) auto
  then obtain n where n: "2 ^ n \<le> nat t" "nat t < 2 ^ (n + 1)" by blast
  have "int (2 ^ n) \<le> int (nat t)" using n(1) by (simp only: of_nat_le_iff)
  then have "(2::int) ^ n \<le> t" using assms by simp
  moreover have "int (nat t) < int (2 ^ (n + 1))" using n(2) by (simp only: of_nat_less_iff)
  then have "t < 2 ^ (n + 1)" using assms by simp
  ultimately show ?thesis by blast
qed

lemma isPowerOfTwo_unique:
  assumes "isPowerOfTwo t" "2 ^ k \<le> t" "t < 2 ^ (k + 1)"
  shows "t = 2 ^ k"
proof (rule ccontr)
  assume ne: "t \<noteq> 2 ^ k"
  have "\<not> isPowerOfTwo t"
  proof
    assume p: "isPowerOfTwo t"
    have "2 ^ k \<le> t AND (t - 1)"
    proof -
      from ne assms(2) have lo: "2 ^ k \<le> t - 1" by simp
      have "bit t k" using assms(2,3) by (rule bit_of_interval)
      moreover have "bit (t - 1) k" using lo assms(3) by (intro bit_of_interval) auto
      ultimately have "bit (t AND (t - 1)) k" by (simp add: bit_and_iff)
      moreover have "0 \<le> t AND (t - 1)" using p by (simp add: isPowerOfTwo_def)
      ultimately show ?thesis by (intro bit_lower_bound)
    qed
    moreover have "t AND (t - 1) = 0" using p by (simp add: isPowerOfTwo_def)
    ultimately show False by simp
  qed
  with assms(1) show False by simp
qed

lemma clearLowestBits_exact:
  assumes "2 ^ k \<le> t" "t < 2 ^ (k + 1)" "t < 2 ^ 63"
  shows "clearLowestBits t = Some (2 ^ k)"
proof -
  obtain r where r: "clearLowestBits t = Some r" "isPowerOfTwo r" "2 ^ k \<le> r" "r \<le> t"
    using clearLowestBits_total [OF assms] by blast
  then have "r = 2 ^ k" using assms(2) by (intro isPowerOfTwo_unique) auto
  with r show ?thesis by simp
qed

lemma clearLowestBits_floor:
  assumes "1 \<le> t" "t < 2 ^ 63"
  shows "\<exists>r. clearLowestBits t = Some r \<and> isPowerOfTwo r \<and> r \<le> t \<and> t < 2 * r"
proof -
  obtain k where k: "2 ^ k \<le> t" "t < 2 ^ (k + 1)" using power_interval_ex [OF assms(1)] by blast
  obtain r where r: "clearLowestBits t = Some r" "isPowerOfTwo r" "2 ^ k \<le> r" "r \<le> t"
    using clearLowestBits_total [OF k assms(2)] by blast
  have "t < 2 * r" using k(2) r(3) by simp
  with r show ?thesis by blast
qed

lemma floorPowerOfTwo_total:
  assumes "v < 2 ^ 63"
  shows "\<exists>r. floorPowerOfTwo v = Some r \<and> r \<le> v \<and> (2 < v \<longrightarrow> v < 2 * r)"
proof (cases "2 < v")
  case True
  then have "1 \<le> v" by simp
  from clearLowestBits_floor [OF this assms] True show ?thesis by (auto simp: floorPowerOfTwo_def)
next
  case False
  then show ?thesis by (simp add: floorPowerOfTwo_def)
qed

lemma ceilPowerOfTwo_bound:
  assumes "v \<le> 2 ^ k" "k \<le> 62"
  shows "\<exists>r. ceilPowerOfTwo v = Some r \<and> v \<le> r \<and> r \<le> 2 ^ k"
proof (cases "2 < v \<and> \<not> isPowerOfTwo v")
  case False
  then show ?thesis using assms by (auto simp: ceilPowerOfTwo_def)
next
  case True
  then have "v \<noteq> 2 ^ k" by auto
  with assms have vk: "v < 2 ^ k" by simp
  have "(2::int) ^ k \<le> 2 ^ 62" using assms(2) by (intro power_increasing) simp_all
  then have v62: "2 * v < 2 ^ 63" using vk by simp
  have w: "s64 (push_bit 1 v) = 2 * v"
    using True v62 by (simp add: push_bit_eq_mult mult.commute s64_id)
  have "1 \<le> 2 * v" using True by simp
  then obtain j where j: "2 ^ j \<le> 2 * v" "2 * v < 2 ^ (j + 1)"
    using power_interval_ex by blast
  have c: "clearLowestBits (2 * v) = Some (2 ^ j)" using j v62 by (rule clearLowestBits_exact)
  have "(2::int) ^ j < 2 ^ (k + 1)" using j(1) vk by simp
  then have "j < k + 1" by (rule power_less_imp_less_exp [rotated]) simp
  then have "(2::int) ^ j \<le> 2 ^ k" by (simp add: power_increasing)
  moreover have "v \<le> 2 ^ j" using j(2) by simp
  ultimately show ?thesis using True c w by (simp add: ceilPowerOfTwo_def)
qed

lemma computeNextCapacity_range:
  assumes "- (2 ^ 63) \<le> c" "c < 2 ^ 62"
  shows "\<exists>n. computeNextCapacity c = Some n \<and> c < n \<and> n \<le> 3 * 2 ^ 61"
proof (cases "c < 16 \<or> \<not> isPowerOfTwo c")
  case True
  have w1: "s64 (c + 1) = c + 1" using assms by (intro s64_id) simp_all
  show ?thesis
  proof (cases "c < 0")
    case neg: True
    then have "ceilPowerOfTwo (c + 1) = Some (c + 1)" by (simp add: ceilPowerOfTwo_def)
    moreover have "c_div c 3 \<le> 0" using neg by (simp add: c_div_def sgn_if)
    moreover have "s64 (c + 1 - c) = 1" by (simp add: s64_id)
    ultimately show ?thesis using True w1 neg assms by (simp add: computeNextCapacity_def)
  next
    case False
    then have c0: "0 \<le> c" by simp
    have "c + 1 \<le> 2 ^ 62" using assms by simp
    then obtain r where r: "ceilPowerOfTwo (c + 1) = Some r" "c + 1 \<le> r" "r \<le> 2 ^ 62"
      using ceilPowerOfTwo_bound [of "c + 1" 62] by auto
    have d: "c_div r 2 = r div 2" using r(2) c0 by simp
    have lt: "r + r div 2 \<le> 3 * 2 ^ 61" using r(3) by simp
    have nn: "0 \<le> r div 2" using r(2) c0 by simp
    have "c < r + r div 2" using r(2) nn by linarith
    moreover have "s64 (r - c) = r - c" using r(2,3) c0 by (intro s64_id) simp_all
    moreover have "s64 (r + r div 2) = r + r div 2" using lt nn r(2) c0 by (intro s64_id) simp_all
    ultimately show ?thesis using True r w1 d lt by (simp add: computeNextCapacity_def)
  qed
next
  case False
  then have "16 \<le> c" by simp
  then have d: "c_div c 2 = c div 2" "0 < c div 2" by simp_all
  have lt: "c + c div 2 \<le> 3 * 2 ^ 61" using assms by simp
  have "s64 (c + c div 2) = c + c div 2" using lt d(2) \<open>16 \<le> c\<close> by (intro s64_id) simp_all
  then show ?thesis using False d lt by (simp add: computeNextCapacity_def)
qed

lemma computeNextCapacity3_range:
  assumes "0 \<le> cur" "cur < cap" "cap \<le> 2 ^ 62"
  shows "\<exists>c. computeNextCapacity3 cap cur init = Some c \<and> cap \<le> c \<and> c < 2 ^ 63"
proof (cases "cur \<noteq> init")
  case False
  then show ?thesis using assms by (simp add: computeNextCapacity3_def)
next
  case True
  have "cur < 2 ^ 62" "- (2 ^ 63) \<le> cur" using assms by simp_all
  then obtain nx where nx: "computeNextCapacity cur = Some nx" "nx < 2 ^ 63"
    using computeNextCapacity_range [of cur] by auto
  have cap63: "cap < 2 ^ 63" using assms(3) by simp
  obtain fp where fp: "floorPowerOfTwo cap = Some fp" "fp \<le> cap"
    using floorPowerOfTwo_total [OF cap63] by blast
  obtain cp where cp: "ceilPowerOfTwo cap = Some cp" "cap \<le> cp" "cp \<le> 2 ^ 62"
    using ceilPowerOfTwo_bound [OF assms(3)] by auto
  have pos: "0 < cap" using assms by simp
  have fp0: "0 \<le> fp"
    using fp pos floorPowerOfTwo_total [OF cap63]
    by (cases "2 < cap") (auto simp: floorPowerOfTwo_def)
  then have d: "c_div fp 2 = fp div 2" by simp
  have lt: "fp + fp div 2 < 2 ^ 63" using fp(2) assms(3) by simp
  have "s64 (fp + fp div 2) = fp + fp div 2" using lt fp0 by (intro s64_id) simp_all
  then show ?thesis using True nx fp cp assms d lt
    by (auto simp: computeNextCapacity3_def Let_def)
qed

text \<open>
  Outside that range the loop of \<open>ceilPowerOfTwo\<close> does not end: the shift leaves a
  value that is not positive, and clearing its lowest set bits never reaches a power of two.
\<close>

lemma and_negative_lower:
  fixes x y :: int
  assumes "- (2 ^ n) \<le> x" "x < 0" "- (2 ^ n) \<le> y" "y < 0"
  shows "- (2 ^ n) \<le> x AND y" "x AND y < 0"
proof -
  have "0 \<le> NOT x" "NOT x < 2 ^ n" "NOT y < 2 ^ n"
    using assms by (simp_all add: not_int_def)
  then have "NOT x OR NOT y < 2 ^ n" by (rule OR_upper)
  moreover have "x AND y = NOT (NOT x OR NOT y)" by simp
  ultimately show "- (2 ^ n) \<le> x AND y" by (simp add: not_int_def)
  show "x AND y < 0" using assms(2,4) by simp
qed

lemma clearLowestBits_nonpos_aux:
  assumes "clearLowestBits t = Some r"
  shows "\<not> (- (2 ^ 63) \<le> t \<and> t \<le> 0)"
proof (rule clearLowestBits.raw_induct [where P = "\<lambda>t r. \<not> (- (2 ^ 63) \<le> t \<and> t \<le> 0)", OF _ assms],
    goal_cases)
  case (1 f t r)
  show ?case
  proof
    assume t: "- (2 ^ 63) \<le> t \<and> t \<le> 0"
    then have "\<not> isPowerOfTwo t" by (simp add: isPowerOfTwo_def)
    with 1(2) have f: "f (t AND s64 (t - 1)) = Some r" by simp
    have "- (2 ^ 63) \<le> t AND s64 (t - 1) \<and> t AND s64 (t - 1) \<le> 0"
    proof (cases "t = 0 \<or> t = - (2 ^ 63)")
      case True
      then show ?thesis by (auto simp: s64_def)
    next
      case False
      with t have r: "- (2 ^ 63) \<le> t - 1" "t < 0" "t - 1 < 0" by simp_all
      then have "s64 (t - 1) = t - 1" by (intro s64_id) simp_all
      moreover have "- (2 ^ 63) \<le> t AND (t - 1)"
        using t r by (intro and_negative_lower(1)) simp_all
      moreover have "t AND (t - 1) \<le> 0"
        using and_negative_lower(2) [of 63 t "t - 1"] t r by (intro order_less_imp_le) simp_all
      ultimately show ?thesis by (simp only: simp_thms)
    qed
    with 1(1) [OF f] show False by simp
  qed
qed

lemma clearLowestBits_nonpos: "- (2 ^ 63) \<le> t \<Longrightarrow> t \<le> 0 \<Longrightarrow> clearLowestBits t = None"
  using clearLowestBits_nonpos_aux [of t] by (cases "clearLowestBits t") auto

lemma ceilPowerOfTwo_overflow:
  assumes "2 ^ 62 < v" "v < 2 ^ 63"
  shows "ceilPowerOfTwo v = None"
proof -
  have np: "\<not> isPowerOfTwo v"
    using isPowerOfTwo_unique [of v 62] assms by auto
  have "2 ^ 63 \<le> 2 * v" "2 * v < 2 ^ (63 + 1)" using assms by simp_all
  then have "bit (2 * v) 63" by (rule bit_of_interval)
  then have "s64 (2 * v) < 0" by (simp add: s64_def)
  then have "clearLowestBits (s64 (2 * v)) = None"
    using s64_bounds(1) [of "2 * v"] by (intro clearLowestBits_nonpos) simp_all
  then show ?thesis using np assms by (simp add: ceilPowerOfTwo_def push_bit_eq_mult mult.commute)
qed

lemma computeNextCapacity3_overflow:
  assumes "0 \<le> cur" "cur < 2 ^ 62" "cur \<noteq> init"
  shows "computeNextCapacity3 (2 ^ 63 - 1) cur init = None"
proof -
  obtain nx where nx: "computeNextCapacity cur = Some nx" "nx < 2 ^ 63 - 1"
    using computeNextCapacity_range [of cur] assms by auto
  have np: "\<not> isPowerOfTwo (2 ^ 63 - 1)"
    using isPowerOfTwo_unique [of "2 ^ 63 - 1" 62] by auto
  have fp: "floorPowerOfTwo (2 ^ 63 - 1) = Some (2 ^ 62)"
    using clearLowestBits_exact [of 62 "2 ^ 63 - 1"] by (simp add: floorPowerOfTwo_def)
  have pred: "s64 (2 ^ 62 + c_div (2 ^ 62) 2) = 2 ^ 62 + 2 ^ 61"
    by (simp add: s64_id)
  have "ceilPowerOfTwo (2 ^ 63 - 1) = None" by (rule ceilPowerOfTwo_overflow) simp_all
  then show ?thesis
    using assms(3) nx np fp pred
    by (simp add: computeNextCapacity3_def Let_def del: c_div_nonneg)
qed

lemma computeNextCapacity_overflow:
  assumes "2 ^ 62 < cur" "cur < 2 ^ 63 - 1"
  shows "computeNextCapacity cur = None"
proof -
  have np: "\<not> isPowerOfTwo cur" using isPowerOfTwo_unique [of cur 62] assms by auto
  have "s64 (cur + 1) = cur + 1" using assms by (intro s64_id) simp_all
  moreover have "ceilPowerOfTwo (cur + 1) = None"
    using assms by (intro ceilPowerOfTwo_overflow) simp_all
  ultimately show ?thesis using np by (simp add: computeNextCapacity_def)
qed

lemma computeNextCapacity3_MaxLength:
  assumes "0 \<le> cur" "cur < 2 ^ 63 - 1"
  shows "computeNextCapacity3 (2 ^ 63 - 1) cur init = (if cur = init then Some (2 ^ 63 - 1) else None)"
proof (cases "cur = init")
  case True
  then show ?thesis by (simp add: computeNextCapacity3_def)
next
  case ne: False
  have "computeNextCapacity3 (2 ^ 63 - 1) cur init = None"
  proof (cases "cur < 2 ^ 62")
    case True
    then show ?thesis using assms(1) ne by (intro computeNextCapacity3_overflow)
  next
    case False
    show ?thesis
    proof (cases "cur = 2 ^ 62")
      case False
      with \<open>\<not> cur < 2 ^ 62\<close> have "2 ^ 62 < cur" by simp
      then have "computeNextCapacity cur = None"
        using assms(2) by (rule computeNextCapacity_overflow)
      then show ?thesis using ne by (simp add: computeNextCapacity3_def)
    next
      case True
      have p: "isPowerOfTwo ((2::int) ^ 62)" by (rule isPowerOfTwo_power)
      have "s64 (2 ^ 62 + c_div (2 ^ 62) 2) = 2 ^ 62 + 2 ^ 61" by (simp add: s64_id)
      then have nx: "computeNextCapacity (2 ^ 62) = Some (2 ^ 62 + 2 ^ 61)"
        using p by (simp add: computeNextCapacity_def del: c_div_nonneg)
      have np: "\<not> isPowerOfTwo (2 ^ 63 - 1)"
        using isPowerOfTwo_unique [of "2 ^ 63 - 1" 62] by auto
      have fp: "floorPowerOfTwo (2 ^ 63 - 1) = Some (2 ^ 62)"
        using clearLowestBits_exact [of 62 "2 ^ 63 - 1"] by (simp add: floorPowerOfTwo_def)
      have pred: "s64 (2 ^ 62 + c_div (2 ^ 62) 2) = 2 ^ 62 + 2 ^ 61"
        by (simp add: s64_id)
      have "ceilPowerOfTwo (2 ^ 63 - 1) = None" by (rule ceilPowerOfTwo_overflow) simp_all
      then show ?thesis
        using ne True nx np fp pred
        by (simp add: computeNextCapacity3_def Let_def del: c_div_nonneg)
    qed
  qed
  then show ?thesis using ne by simp
qed

lemma ceilPowerOfTwo_result:
  assumes "v < 2 ^ 63" "ceilPowerOfTwo v = Some r"
  shows "v \<le> r" "r < 2 ^ 63"
proof -
  have "v \<le> r \<and> r < 2 ^ 63"
  proof (cases "v \<le> 2 ^ 62")
    case True
    then obtain r' where "ceilPowerOfTwo v = Some r'" "v \<le> r'" "r' \<le> 2 ^ 62"
      using ceilPowerOfTwo_bound [of v 62] by auto
    then show ?thesis using assms(2) by simp
  next
    case False
    then have "ceilPowerOfTwo v = None" using assms(1) by (intro ceilPowerOfTwo_overflow) simp_all
    then show ?thesis using assms(2) by simp
  qed
  then show "v \<le> r" "r < 2 ^ 63" by simp_all
qed

lemma computeNextCapacity_result:
  assumes "computeNextCapacity cur = Some nx"
  shows "nx < 2 ^ 63"
proof (cases "cur < 16 \<or> \<not> isPowerOfTwo cur")
  case True
  then obtain r where r: "ceilPowerOfTwo (s64 (cur + 1)) = Some r"
    and nx: "nx = (if s64 (r - cur) < c_div cur 3 then s64 (r + c_div r 2) else r)"
    using assms by (auto simp: computeNextCapacity_def split: Option.bind_splits)
  have "r < 2 ^ 63" using ceilPowerOfTwo_result(2) [OF s64_bounds(2) r] .
  then show ?thesis using nx s64_bounds(2) [of "r + c_div r 2"] by simp
next
  case False
  then have "nx = s64 (cur + c_div cur 2)" using assms by (simp add: computeNextCapacity_def)
  then show ?thesis using s64_bounds(2) by simp
qed

lemma computeNextCapacity3_result:
  assumes "cap < 2 ^ 63" "computeNextCapacity3 cap cur init = Some c"
  shows "cap \<le> c" "c < 2 ^ 63"
proof -
  have "cap \<le> c \<and> c < 2 ^ 63"
  proof (cases "cur = init")
    case True
    then show ?thesis using assms by (simp add: computeNextCapacity3_def)
  next
    case False
    then obtain nx where nx: "computeNextCapacity cur = Some nx"
      and c: "(if cap > nx then
                 (if \<not> isPowerOfTwo cap then
                    Option.bind (floorPowerOfTwo cap) (\<lambda>fp.
                      let capacityPred = s64 (fp + c_div fp 2) in
                      if capacityPred \<ge> cap then Some capacityPred else ceilPowerOfTwo cap)
                  else Some cap)
               else Some nx) = Some c"
      using assms(2) by (auto simp: computeNextCapacity3_def split: Option.bind_splits)
    note n63 = computeNextCapacity_result [OF nx]
    show ?thesis
    proof (cases "cap > nx")
      case False
      then show ?thesis using c n63 by simp
    next
      case gt: True
      show ?thesis
      proof (cases "isPowerOfTwo cap")
        case True
        then show ?thesis using c gt assms(1) by simp
      next
        case np: False
        then obtain fp where fp: "floorPowerOfTwo cap = Some fp"
          and c': "(if s64 (fp + c_div fp 2) \<ge> cap then Some (s64 (fp + c_div fp 2))
                    else ceilPowerOfTwo cap) = Some c"
          using c gt by (auto simp: Let_def split: Option.bind_splits)
        show ?thesis
        proof (cases "s64 (fp + c_div fp 2) \<ge> cap")
          case True
          then show ?thesis using c' s64_bounds(2) [of "fp + c_div fp 2"] by auto
        next
          case False
          then have "ceilPowerOfTwo cap = Some c" using c' by simp
          from ceilPowerOfTwo_result [OF assms(1) this] show ?thesis by simp
        qed
      qed
    qed
  qed
  then show "cap \<le> c" "c < 2 ^ 63" by simp_all
qed


section \<open>TinyTRL\_Containers: the class Containers and Array\<close>

definition MaxLength :: int where
  "MaxLength = 2 ^ 63 - 1"

definition NotFound :: int where
  "NotFound = - 1"

definition LengthMask :: "64 word" where
  "LengthMask = 0x7FFFFFFFFFFFFFFF"

definition PolluteBit :: "64 word" where
  "PolluteBit = 0x8000000000000000"

text \<open>
  \<open>Alloc::alloc\<close> returns a pointer or \<open>NULL\<close>. The allocator of the model answers, for
  the number of elements requested, whether the pointer is not \<open>NULL\<close>.
\<close>

type_synonym allocator = "int \<Rightarrow> bool"

text \<open>
  \<open>_data\<close> is the buffer: one entry per slot, \<open>None\<close> for raw storage that holds no
  constructed element. \<open>_capacity\<close> carries the pollute bit in its top bit.
\<close>

record 'e Array =
  a_data :: "'e option list"
  a_capacity :: "64 word"
  a_length :: "64 word"

definition DefaultCompare :: "'v::linorder \<Rightarrow> 'v \<Rightarrow> int" where
  "DefaultCompare left right = (if left < right then - 1 else if right < left then 1 else 0)"

definition computeCapacity :: "int \<Rightarrow> int \<Rightarrow> int option" where
  "computeCapacity targetCapacity currentCapacity =
     do { f \<leftarrow> floorPowerOfTwo MaxLength;
          if targetCapacity < f then computeNextCapacity3 targetCapacity currentCapacity 0
          else Some targetCapacity }"

definition Array_empty :: "'e Array" where
  "Array_empty = \<lparr>a_data = [], a_capacity = 0, a_length = 0\<rparr>"

text \<open>\<open>operator bool\<close>, \<open>capacity()\<close>, \<open>length()\<close>, \<open>pollute()\<close>, \<open>empty()\<close>.\<close>

definition Array_valid :: "'e Array \<Rightarrow> bool" where
  "Array_valid a \<longleftrightarrow> a_capacity a AND PolluteBit = 0"

definition Array_capacity :: "'e Array \<Rightarrow> int" where
  "Array_capacity a = sint (a_capacity a AND LengthMask)"

definition Array_length :: "'e Array \<Rightarrow> int" where
  "Array_length a = sint (a_length a)"

definition Array_pollute :: "'e Array \<Rightarrow> 'e Array" where
  "Array_pollute a = a\<lparr>a_capacity := a_capacity a OR PolluteBit\<rparr>"

text \<open>The live elements \<open>_data[0 .. length())\<close>, as iteration from \<open>begin()\<close> to \<open>end()\<close> sees them.\<close>

definition Array_elements :: "'e Array \<Rightarrow> 'e list" where
  "Array_elements a = map the (take (nat (Array_length a)) (a_data a))"

text \<open>
  The loop \<open>for (i = lo; i < hi; ++i) { new (data + i + off) Element(move(_data[i])); _data[i].~Element(); }\<close>
  that moves elements of the old buffer \<open>src\<close> into the new buffer \<open>dst\<close>.
\<close>

function relocate :: "'e option list \<Rightarrow> 'e option list \<Rightarrow> int \<Rightarrow> int \<Rightarrow> int \<Rightarrow> 'e option list" where
  "relocate src dst off i hi =
     (if i < hi then relocate src (dst[nat (i + off) := src ! nat i]) off (i + 1) hi else dst)"
  by pat_completeness auto
termination
  by (relation "measure (\<lambda>(src, dst, off, i, hi). nat (hi - i))") auto

definition Array_reallocate :: "allocator \<Rightarrow> 'e Array \<Rightarrow> int \<Rightarrow> bool \<times> 'e Array" where
  "Array_reallocate al a capacity =
     (let polluteBit = a_capacity a AND PolluteBit in
      if al capacity then
        (let length = Array_length a;
             data = relocate (a_data a) (replicate (nat capacity) None) 0 0 length
         in (True, a\<lparr>a_data := data, a_capacity := word_of_int capacity OR polluteBit\<rparr>))
      else (False, a))"

text \<open>\<open>bool capacity(Length capacity)\<close>.\<close>

definition Array_set_capacity :: "allocator \<Rightarrow> 'e Array \<Rightarrow> int \<Rightarrow> (bool \<times> 'e Array) option" where
  "Array_set_capacity al a capacity0 =
     (let capacity = max capacity0 0;
          currentCapacity = Array_capacity a
      in if currentCapacity < capacity then
           do { c \<leftarrow> computeCapacity capacity currentCapacity;
                Some (Array_reallocate al a c) }
         else Some (True, a))"

text \<open>\<open>Array(std::initializer_list<Element> elements)\<close>.\<close>

definition Array_of_list :: "allocator \<Rightarrow> 'e list \<Rightarrow> 'e Array" where
  "Array_of_list al elements =
     (let length = min (int (size elements)) MaxLength;
          a = (if length \<noteq> 0 then
                 (if al length then
                    Array_empty\<lparr>a_data := map Some elements,
                      a_length := word_of_int length, a_capacity := word_of_int length\<rparr>
                  else Array_pollute Array_empty)
               else Array_empty)
      in if int (size elements) > MaxLength then Array_pollute a else a)"

text \<open>
  \<open>populate(count, value)\<close>: every one of the \<open>count\<close> placement-news writes the slot
  \<open>_data + length\<close>, and \<open>_length\<close> is not assigned. The function is declared \<open>bool\<close> and
  returns \<open>length\<close> or \<open>NotFound\<close>: the conversion to \<open>bool\<close> is \<open>\<noteq> 0\<close>.
\<close>

function populate_loop :: "'e option list \<Rightarrow> int \<Rightarrow> 'e \<Rightarrow> int \<Rightarrow> int \<Rightarrow> 'e option list" where
  "populate_loop d len v i count =
     (if i < count then populate_loop (d[nat len := Some v]) len v (i + 1) count else d)"
  by pat_completeness auto
termination
  by (relation "measure (\<lambda>(d, len, v, i, count). nat (count - i))") auto

definition Array_populate :: "allocator \<Rightarrow> 'e Array \<Rightarrow> int \<Rightarrow> 'e \<Rightarrow> (bool \<times> 'e Array) option" where
  "Array_populate al a count0 v =
     (let count = max count0 0;
          length = Array_length a
      in if length \<le> MaxLength - count then
           do { (ok, a1) \<leftarrow> Array_set_capacity al a (length + count);
                if ok then
                  Some (length \<noteq> 0, a1\<lparr>a_data := populate_loop (a_data a1) length v 0 count\<rparr>)
                else Some (NotFound \<noteq> 0, a1) }
         else Some (NotFound \<noteq> 0, a))"

text \<open>\<open>Array(Length length, Element const& value)\<close>.\<close>

definition Array_filled :: "allocator \<Rightarrow> int \<Rightarrow> 'e \<Rightarrow> 'e Array option" where
  "Array_filled al len v =
     do { (ok, a) \<leftarrow> Array_populate al Array_empty len v;
          Some (if \<not> ok then Array_pollute a else a) }"

text \<open>\<open>elementAdd\<close> with the assignment of \<open>add(Element const&)\<close>, and \<open>addp\<close>.\<close>

definition Array_add :: "allocator \<Rightarrow> 'e Array \<Rightarrow> 'e \<Rightarrow> (int \<times> 'e Array) option" where
  "Array_add al a element =
     (let length = Array_length a
      in if length < MaxLength then
           do { (ok, a1) \<leftarrow> Array_set_capacity al a (length + 1);
                if ok then
                  Some (length, a1\<lparr>a_data := (a_data a1)[nat length := Some element],
                                  a_length := word_of_int (length + 1)\<rparr>)
                else Some (NotFound, a1) }
         else Some (NotFound, a))"

definition Array_addp :: "allocator \<Rightarrow> 'e Array \<Rightarrow> 'e \<Rightarrow> 'e Array option" where
  "Array_addp al a element =
     do { (r, a1) \<leftarrow> Array_add al a element;
          Some (if r = NotFound then Array_pollute a1 else a1) }"

text \<open>
  \<open>elementInsert\<close> with the assignment of \<open>insert(Length, Element const&)\<close>, and \<open>insertp\<close>.
  The first loop shifts the tail one slot to the right inside the buffer.
\<close>

function shift_right :: "'e option list \<Rightarrow> int \<Rightarrow> int \<Rightarrow> 'e option list" where
  "shift_right d index i =
     (if i > index then
        shift_right ((d[nat i := d ! nat (i - 1)])[nat (i - 1) := None]) index (i - 1)
      else d)"
  by pat_completeness auto
termination
  by (relation "measure (\<lambda>(d, index, i). nat (i - index))") auto

definition Array_insert :: "allocator \<Rightarrow> 'e Array \<Rightarrow> int \<Rightarrow> 'e \<Rightarrow> (bool \<times> 'e Array) option" where
  "Array_insert al a index0 element =
     (let length = Array_length a
      in if length < MaxLength then
           (let index = saturate index0 0 length;
                capacity = Array_capacity a
            in if length + 1 \<le> capacity then
                 Some (True, a\<lparr>a_data := (shift_right (a_data a) index length)[nat index := Some element],
                                a_length := word_of_int (length + 1)\<rparr>)
               else
                 (let polluteBit = a_capacity a AND PolluteBit in
                  do { nextCapacity \<leftarrow> computeCapacity (length + 1) capacity;
                       if \<not> al nextCapacity then Some (False, a)
                       else
                         (let data0 = replicate (nat nextCapacity) None;
                              data1 = relocate (a_data a) data0 0 0 index;
                              data2 = data1[nat index := Some element];
                              data3 = relocate (a_data a) data2 1 index length
                          in Some (True, a\<lparr>a_data := data3,
                                          a_capacity := word_of_int nextCapacity OR polluteBit,
                                          a_length := word_of_int (length + 1)\<rparr>)) }))
         else Some (False, a))"

definition Array_insertp :: "allocator \<Rightarrow> 'e Array \<Rightarrow> int \<Rightarrow> 'e \<Rightarrow> 'e Array option" where
  "Array_insertp al a index element =
     do { (ok, a1) \<leftarrow> Array_insert al a index element;
          Some (if \<not> ok then Array_pollute a1 else a1) }"

text \<open>\<open>erase(Length index)\<close>.\<close>

function shift_left :: "'e option list \<Rightarrow> int \<Rightarrow> int \<Rightarrow> int \<Rightarrow> 'e option list" where
  "shift_left d c i hi =
     (if i < hi then
        shift_left ((d[nat i := d ! nat (i + c)])[nat (i + c) := None]) c (i + 1) hi
      else d)"
  by pat_completeness auto
termination
  by (relation "measure (\<lambda>(d, c, i, hi). nat (hi - i))") auto

definition Array_erase1 :: "'e Array \<Rightarrow> int \<Rightarrow> bool \<times> 'e Array" where
  "Array_erase1 a index =
     (let length = Array_length a
      in if index \<ge> 0 \<and> index < length then
           (True, a\<lparr>a_data := shift_left ((a_data a)[nat index := None]) 1 index (length - 1),
                     a_length := word_of_int (length - 1)\<rparr>)
         else (False, a))"

text \<open>
  \<open>erase(Length start, Length count)\<close>. The additions \<open>count += start\<close> and \<open>start + count\<close>
  act on the caller's arguments without a guard: they are taken with the wrap-around of
  \<open>int64_t\<close>. The loop \<open>for (i = right; --i >= start; )\<close> destroys the removed slots.
\<close>

function destroy_down :: "'e option list \<Rightarrow> int \<Rightarrow> int \<Rightarrow> 'e option list" where
  "destroy_down d start i =
     (if i - 1 \<ge> start then destroy_down (d[nat (i - 1) := None]) start (i - 1) else d)"
  by pat_completeness auto
termination
  by (relation "measure (\<lambda>(d, start, i). nat (i - start))") auto

definition Array_erase :: "'e Array \<Rightarrow> int \<Rightarrow> int \<Rightarrow> bool \<times> 'e Array" where
  "Array_erase a start0 count0 =
     (let length = Array_length a
      in if length \<noteq> 0 then
           (let count = (if start0 < 0 then s64 (count0 + start0) else count0);
                start = (if start0 < 0 then 0 else start0)
            in if start \<ge> length \<or> count \<le> 0 then (False, a)
               else
                 (let right = min (s64 (start + count)) length;
                      cut = right - start;
                      d1 = destroy_down (a_data a) start right;
                      d2 = shift_left d1 cut start (length - cut)
                  in (True, a\<lparr>a_data := d2, a_length := word_of_int (length - cut)\<rparr>)))
         else (False, a))"

text \<open>\<open>swap\<close>, \<open>quickSort\<close>, \<open>recursiveQuickSort\<close>, \<open>partitionQuickSort\<close>.\<close>

definition swap :: "'e option list \<Rightarrow> int \<Rightarrow> int \<Rightarrow> 'e option list" where
  "swap d first second =
     (let temp = d ! nat first in (d[nat first := d ! nat second])[nat second := temp])"

function partition_left :: "('e \<Rightarrow> 'e \<Rightarrow> int) \<Rightarrow> 'e option list \<Rightarrow> int \<Rightarrow> int \<Rightarrow> int \<Rightarrow> int" where
  "partition_left comparer d first lastI left =
     (if left \<le> lastI \<and> comparer (the (d ! nat left)) (the (d ! nat first)) < 0
      then partition_left comparer d first lastI (left + 1) else left)"
  by pat_completeness auto
termination
  by (relation "measure (\<lambda>(comparer, d, first, lastI, left). nat (lastI + 1 - left))") auto

function partition_right :: "('e \<Rightarrow> 'e \<Rightarrow> int) \<Rightarrow> 'e option list \<Rightarrow> int \<Rightarrow> int \<Rightarrow> int" where
  "partition_right comparer d first right =
     (if right > first \<and> comparer (the (d ! nat right)) (the (d ! nat first)) \<ge> 0
      then partition_right comparer d first (right - 1) else right)"
  by pat_completeness auto
termination
  by (relation "measure (\<lambda>(comparer, d, first, right). nat (right - first))") auto

partial_function (option) partition_loop ::
  "('e \<Rightarrow> 'e \<Rightarrow> int) \<Rightarrow> int \<Rightarrow> int \<Rightarrow> 'e option list \<Rightarrow> int \<Rightarrow> int \<Rightarrow> ('e option list \<times> int) option" where
  "partition_loop comparer first lastI d left right =
     (if left \<le> right then
        (let left1 = partition_left comparer d first lastI left;
             right1 = partition_right comparer d first right
         in partition_loop comparer first lastI
              (if left1 < right1 then swap d left1 right1 else d) left1 right1)
      else Some (d, right))"

declare partition_loop.simps [code]

definition partitionQuickSort ::
  "('e \<Rightarrow> 'e \<Rightarrow> int) \<Rightarrow> 'e option list \<Rightarrow> int \<Rightarrow> int \<Rightarrow> ('e option list \<times> int) option" where
  "partitionQuickSort comparer d first lastI =
     do { (d1, right) \<leftarrow> partition_loop comparer first lastI d (first + 1) lastI;
          Some (if first \<noteq> right then swap d1 first right else d1, right) }"

partial_function (option) recursiveQuickSort ::
  "('e \<Rightarrow> 'e \<Rightarrow> int) \<Rightarrow> 'e option list \<Rightarrow> int \<Rightarrow> int \<Rightarrow> 'e option list option" where
  "recursiveQuickSort comparer d first lastI =
     (if first < lastI then
        (let middle = first + c_div (lastI - first) 2;
             d1 = (if first \<noteq> middle then swap d first middle else d)
         in Option.bind (partitionQuickSort comparer d1 first lastI) (\<lambda>p.
              Option.bind (recursiveQuickSort comparer (fst p) first (snd p - 1)) (\<lambda>d2.
                recursiveQuickSort comparer d2 (snd p + 1) lastI)))
      else Some d)"

declare recursiveQuickSort.simps [code]

definition Array_quickSort ::
  "('e \<Rightarrow> 'e \<Rightarrow> int) \<Rightarrow> 'e Array \<Rightarrow> int \<Rightarrow> int \<Rightarrow> 'e Array option" where
  "Array_quickSort comparer a first lastI =
     (let length = Array_length a
      in if length > 1 then
           do { d \<leftarrow> recursiveQuickSort comparer (a_data a)
                       (saturate first 0 (length - 1)) (saturate lastI 0 (length - 1));
                Some (a\<lparr>a_data := d\<rparr>) }
         else Some a)"

text \<open>\<open>binarySearch(element, first, lastI, comparer)\<close>.\<close>

function binarySearch_loop ::
  "('e \<Rightarrow> 'e \<Rightarrow> int) \<Rightarrow> 'e option list \<Rightarrow> 'e \<Rightarrow> int \<Rightarrow> int \<Rightarrow> int" where
  "binarySearch_loop comparer d element left right =
     (if left \<le> right then
        (let pivot = left + c_div (right - left) 2;
             res = comparer (the (d ! nat pivot)) element
         in if res = 0 then pivot
            else if res < 0 then binarySearch_loop comparer d element (pivot + 1) right
            else binarySearch_loop comparer d element left (pivot - 1))
      else NotFound)"
  by pat_completeness auto
termination
  by (relation "measure (\<lambda>(comparer, d, element, left, right). nat (right + 1 - left))") auto

definition Array_binarySearch ::
  "('e \<Rightarrow> 'e \<Rightarrow> int) \<Rightarrow> 'e Array \<Rightarrow> 'e \<Rightarrow> int \<Rightarrow> int \<Rightarrow> int" where
  "Array_binarySearch comparer a element first lastI =
     (let length = Array_length a
      in if length \<noteq> 0 then
           binarySearch_loop comparer (a_data a) element
             (saturate first 0 (length - 1)) (saturate lastI 0 (length - 1))
         else NotFound)"


section \<open>Claims about the capacity arithmetic\<close>

text \<open>
  C3, as stated: for every requested capacity \<open>r\<close> and current capacity \<open>c\<close> with
  \<open>c = initialCapacity\<close>, the three-argument \<open>computeNextCapacity\<close> returns what the
  one-argument variant returns for \<open>r\<close>. It does not: for \<open>r = 5\<close> and
  \<open>c = initialCapacity = 0\<close> the three-argument function returns 5, the one-argument
  function returns 8.
\<close>

theorem computeNextCapacity3_initial_counterexample:
  "computeNextCapacity3 5 0 0 = Some 5 \<and> computeNextCapacity 5 = Some 8
   \<and> computeNextCapacity3 5 0 0 \<noteq> computeNextCapacity 5"
  by code_simp

text \<open>
  C3, amended: for every requested capacity \<open>r\<close> and current capacity \<open>c\<close> with
  \<open>c = initialCapacity\<close>, the three-argument \<open>computeNextCapacity\<close> returns \<open>r\<close> itself;
  the one-argument variant, applied to \<open>r\<close>, returns a capacity strictly bigger than
  \<open>r\<close>, so the two results differ. Here \<open>r\<close> is an \<open>int64_t\<close> value below \<open>2 ^ 62\<close>,
  the range in which the one-argument variant stays inside \<open>int64_t\<close>.
\<close>

theorem computeNextCapacity3_initial:
  assumes "- (2 ^ 63) \<le> r" "r < 2 ^ 62"
  shows "computeNextCapacity3 r c c = Some r
         \<and> (\<exists>n. computeNextCapacity r = Some n \<and> r < n)"
proof -
  have first: "computeNextCapacity3 r c c = Some r"
    by (simp add: computeNextCapacity3_def)
  obtain n where n: "computeNextCapacity r = Some n" "r < n"
    using computeNextCapacity_range [OF assms] by blast
  with first show ?thesis by blast
qed

theorem computeNextCapacity3_initial_witness:
  "- (2 ^ 63) \<le> (5::int) \<and> (5::int) < 2 ^ 62 \<and> computeNextCapacity3 5 23 23 = Some 5
   \<and> (\<exists>n. computeNextCapacity 5 = Some n \<and> 5 < n)"
proof -
  have h: "- (2 ^ 63) \<le> (5::int)" "(5::int) < 2 ^ 62" by simp_all
  show ?thesis using h computeNextCapacity3_initial [OF h, of 23] by blast
qed

section \<open>Claims about Array\<close>

definition granting :: allocator where
  "granting n = True"

definition refusing :: allocator where
  "refusing n = False"

text \<open>
  Scenario A of the specification: \<open>Array<int> values = {25, 100, 75}\<close>, \<open>addp(80)\<close>,
  \<open>addp(200)\<close>, \<open>insertp(1, 5)\<close>, then \<open>quickSort()\<close> with the default arguments
  (\<open>first = 0\<close>, \<open>last = MaxLength\<close>, \<open>DefaultComparer\<close>), every allocation granted.
\<close>

definition scenarioA :: "int Array option" where
  "scenarioA =
     do { a1 \<leftarrow> Array_addp granting (Array_of_list granting [25, 100, 75]) 80;
          a2 \<leftarrow> Array_addp granting a1 200;
          Array_insertp granting a2 1 5 }"

definition scenarioA_sorted :: "int Array option" where
  "scenarioA_sorted = do { a \<leftarrow> scenarioA; Array_quickSort DefaultCompare a 0 MaxLength }"

text \<open>
  C1, as stated: the array holds \<open>[25, 5, 100, 75, 80, 200]\<close>, after \<open>quickSort()\<close> it holds
  \<open>[5, 25, 75, 80, 100, 200]\<close>, and \<open>binarySearch(75)\<close> on the sorted array returns index 3.
  The last part fails: \<open>binarySearch(75)\<close> does not return 3.
\<close>

theorem scenarioA_binarySearch_counterexample:
  "map_option (\<lambda>a. Array_binarySearch DefaultCompare a 75 0 MaxLength) scenarioA_sorted \<noteq> Some 3"
  by code_simp

text \<open>
  C1, amended: the array holds \<open>[25, 5, 100, 75, 80, 200]\<close>, after \<open>quickSort()\<close> it holds
  \<open>[5, 25, 75, 80, 100, 200]\<close>, and \<open>binarySearch(75)\<close> on the sorted array returns index 2,
  the zero-based position of 75; no operation of the scenario pollutes the array.
\<close>

theorem scenarioA_trace:
  "map_option Array_elements scenarioA = Some [25, 5, 100, 75, 80, 200]
   \<and> map_option Array_elements scenarioA_sorted = Some [5, 25, 75, 80, 100, 200]
   \<and> map_option (\<lambda>a. Array_binarySearch DefaultCompare a 75 0 MaxLength) scenarioA_sorted = Some 2
   \<and> map_option Array_valid scenarioA_sorted = Some True"
  by code_simp

text \<open>
  \<open>Array::erase(start, count)\<close> returns \<open>false\<close> and leaves the array as it is when the
  array is empty, when the clamped start lies at or beyond the end, or when the count that
  \<open>count += start\<close> leaves in the variable is not positive.
\<close>

lemma Array_erase_noop:
  assumes "Array_length a = 0 \<or> Array_length a \<le> (if start < 0 then 0 else start)
           \<or> (if start < 0 then s64 (count + start) else count) \<le> 0"
  shows "Array_erase a start count = (False, a)"
proof (cases "Array_length a = 0")
  case True
  then show ?thesis by (simp add: Array_erase_def)
next
  case False
  with assms have "Array_length a \<le> (if start < 0 then 0 else start)
           \<or> (if start < 0 then s64 (count + start) else count) \<le> 0" by simp
  then show ?thesis using False unfolding Array_erase_def Let_def by simp
qed

text \<open>
  C8, at a failing input: \<open>erase(-1, INT64_MIN)\<close> on the array \<open>{25, 5}\<close>. The effective
  count \<open>count + start\<close> is negative, so the call should return \<open>false\<close> and leave the array
  as it is. The addition \<open>count += start\<close> has no guard and leaves \<open>int64_t\<close>; with the
  wrap-around the variable holds \<open>INT64_MAX\<close>, and \<open>erase\<close> returns \<open>true\<close> and removes
  every element.
\<close>

theorem Array_erase_overflow:
  "Array_elements (Array_of_list granting [25, 5 :: int]) = [25, 5]
   \<and> (- (2 ^ 63) :: int) + (- 1) \<le> 0
   \<and> fst (Array_erase (Array_of_list granting [25, 5 :: int]) (- 1) (- (2 ^ 63)))
   \<and> Array_length (snd (Array_erase (Array_of_list granting [25, 5 :: int]) (- 1) (- (2 ^ 63)))) = 0
   \<and> Array_elements (snd (Array_erase (Array_of_list granting [25, 5 :: int]) (- 1) (- (2 ^ 63))))
       = []"
  by code_simp

text \<open>
  C9 at the input on which the code departs from it: \<open>populate(1, 7)\<close> on an empty array
  whose allocator returns \<open>NULL\<close>. \<open>populate\<close> returns \<open>NotFound\<close>, which converts to
  \<open>true\<close> although the length before the call was zero, and the constructor
  \<open>Array(1, 7)\<close> therefore does not call \<open>pollute()\<close>: the array is empty and not polluted.
  When the allocation is granted the constructor pollutes the array it built.
\<close>

theorem Array_populate_refused:
  "Array_populate refusing (Array_empty :: int Array) 1 7 = Some (True, Array_empty)
   \<and> map_option (\<lambda>a. (Array_valid a, Array_length a)) (Array_filled refusing 1 (7::int))
       = Some (True, 0)
   \<and> map_option (\<lambda>a. (Array_valid a, Array_length a)) (Array_filled granting 1 (7::int))
       = Some (False, 0)"
  by code_simp

section \<open>TinyTRL\_Streams: Stream::copy\<close>

definition Failure :: int where
  "Failure = - 1"

definition Pollute :: "8 word" where
  "Pollute = 0x80"

text \<open>
  \<open>Stream::copy\<close> reaches the two streams through their virtual functions only. The
  model takes these as functions on a state \<open>'w\<close> of the world outside \<open>copy\<close> (both
  streams and whatever they share): each returns its C++ result and the new state.
  \<open>src_read n\<close> is \<open>source.read(buffer + storedBytes, n)\<close> and \<open>dst_write n\<close> is
  \<open>write(buffer, n)\<close>; the bytes themselves are part of \<open>'w\<close>. \<open>buffer_alloc n\<close> says
  whether \<open>malloc(n)\<close> returns a buffer.
\<close>

record 'w copy_env =
  src_position :: "'w \<Rightarrow> int \<times> 'w"
  src_size :: "'w \<Rightarrow> int \<times> 'w"
  src_read :: "int \<Rightarrow> 'w \<Rightarrow> int \<times> 'w"
  dst_write :: "int \<Rightarrow> 'w \<Rightarrow> int \<times> 'w"
  buffer_alloc :: "int \<Rightarrow> bool"

text \<open>
  The log of a call: for every \<open>source.read\<close> and every \<open>write\<close> that \<open>copy\<close> makes, in
  order, the number of bytes requested and the value returned. The log is not a value of the
  C++ function; it records the calls, so that statements can speak of the reads and writes
  of a run.
\<close>

record copy_log =
  reads :: "(int \<times> int) list"
  writes :: "(int \<times> int) list"

definition Stream_pollute :: "8 word \<Rightarrow> 8 word" where
  "Stream_pollute status = status OR Pollute"

definition Stream_valid :: "8 word \<Rightarrow> bool" where
  "Stream_valid status \<longleftrightarrow> status AND Pollute = 0"

text \<open>
  The body of \<open>while (true)\<close>. Its state is the destination's \<open>_status\<close>, the world,
  \<open>storedBytes\<close>, \<open>totalBytesRead\<close> and \<open>available\<close>.
\<close>

partial_function (option) copy_loop ::
  "'w copy_env \<Rightarrow> int \<Rightarrow> int \<Rightarrow> 8 word \<Rightarrow> 'w \<Rightarrow> int \<Rightarrow> int \<Rightarrow> bool \<Rightarrow> copy_log
     \<Rightarrow> (int \<times> 8 word \<times> 'w \<times> copy_log) option" where
  "copy_loop env size' blockSize status w storedBytes totalBytesRead available log =
     (let reading = storedBytes < blockSize \<and> available;
          availableSize = blockSize - storedBytes;
          bytesToRead = (if size' \<noteq> 0 then min (size' - totalBytesRead) availableSize
                         else availableSize);
          bytesRead = (if reading then fst (src_read env bytesToRead w) else 0);
          w1 = (if reading then snd (src_read env bytesToRead w) else w);
          log1 = (if reading then log\<lparr>reads := reads log @ [(bytesToRead, bytesRead)]\<rparr> else log)
      in if reading \<and> bytesRead < 0 then
           Some (totalBytesRead, Stream_pollute status, w1, log1)
         else
           (let available1 = (if reading then bytesRead \<noteq> 0 else available);
                storedBytes1 = storedBytes + bytesRead;
                totalBytesRead1 = totalBytesRead + bytesRead
            in if storedBytes1 \<noteq> 0 then
                 (let bytesWritten = fst (dst_write env storedBytes1 w1);
                      w2 = snd (dst_write env storedBytes1 w1);
                      log2 = log1\<lparr>writes := writes log1 @ [(storedBytes1, bytesWritten)]\<rparr>
                  in if bytesWritten \<le> 0 then
                       Some (totalBytesRead1, Stream_pollute status, w2, log2)
                     else copy_loop env size' blockSize status w2
                            (storedBytes1 - bytesWritten) totalBytesRead1 available1 log2)
               else Some (totalBytesRead1, status, w1, log1)))"

declare copy_loop.simps [code]

text \<open>The block-size clamp of the first block of \<open>copy\<close>.\<close>

definition copy_blockSize :: "int \<Rightarrow> int \<Rightarrow> int \<Rightarrow> int \<Rightarrow> int" where
  "copy_blockSize position sourceSize size' blockSize =
     (if position \<ge> 0 \<and> sourceSize > 0
      then max (min (min (sourceSize - position) blockSize)
                    (if size' > 0 then size' else blockSize)) 0
      else blockSize)"


definition Stream_copy ::
  "'w copy_env \<Rightarrow> 8 word \<Rightarrow> 'w \<Rightarrow> int \<Rightarrow> int \<Rightarrow> (int \<times> 8 word \<times> 'w \<times> copy_log) option" where
  "Stream_copy env status w size' blockSize0 =
     (let position = fst (src_position env w);
          w1 = snd (src_position env w);
          sourceSize = fst (src_size env w1);
          w2 = snd (src_size env w1);
          blockSize = copy_blockSize position sourceSize size' blockSize0
      in if blockSize > 0 \<and> size' \<ge> 0 \<and> buffer_alloc env blockSize then
           do { r \<leftarrow> copy_loop env size' blockSize status w2 0 0 True \<lparr>reads = [], writes = []\<rparr>;
                Some (fst r,
                      if fst r = Failure then Stream_pollute (fst (snd r)) else fst (snd r),
                      snd (snd r)) }
         else Some (Failure, Stream_pollute status, w2, \<lparr>reads = [], writes = []\<rparr>))"



definition bytes_transferred :: "copy_log \<Rightarrow> int" where
  "bytes_transferred log = sum_list (map snd (filter (\<lambda>x. snd x > 0) (writes log)))"




lemma or_and_absorb: "(s OR p) AND p = (p :: 'a::len word)"
  by (rule bit_word_eqI) (auto simp: bit_and_iff bit_or_iff)

lemma Stream_pollute_invalid [simp]: "\<not> Stream_valid (Stream_pollute status)"
  by (simp add: Stream_valid_def Stream_pollute_def or_and_absorb) (simp add: Pollute_def)





text \<open>The two error steps: a call whose next read, or next write, fails returns at once.\<close>

lemma copy_loop_read_error:
  assumes "storedBytes < blockSize" "available"
    and "n = (if size' \<noteq> 0 then min (size' - totalBytesRead) (blockSize - storedBytes)
              else blockSize - storedBytes)"
    and "fst (src_read env n w) < 0"
  shows "copy_loop env size' blockSize status w storedBytes totalBytesRead available log
         = Some (totalBytesRead, Stream_pollute status, snd (src_read env n w),
                 log\<lparr>reads := reads log @ [(n, fst (src_read env n w))]\<rparr>)"
  using assms by (subst copy_loop.simps) (simp add: Let_def)

lemma copy_loop_write_error:
  assumes "\<not> (storedBytes < blockSize \<and> available)" "storedBytes \<noteq> 0"
    and "fst (dst_write env storedBytes w) \<le> 0"
  shows "copy_loop env size' blockSize status w storedBytes totalBytesRead available log
         = Some (totalBytesRead, Stream_pollute status, snd (dst_write env storedBytes w),
                 log\<lparr>writes := writes log @ [(storedBytes, fst (dst_write env storedBytes w))]\<rparr>)"
proof -
  have r: "(storedBytes < blockSize \<and> available) = False" using assms(1) by simp
  show ?thesis by (subst copy_loop.simps) (simp add: r Let_def assms(2,3))
qed


text \<open>
  A source of 10 bytes read in one block, and a destination that accepts 6 bytes and then
  fails: the call returns 10 while 6 bytes were transferred. After a write error the value
  returned counts the bytes that were read and are still in the buffer.
\<close>

definition breaking_writer :: "int copy_env" where
  "breaking_writer = \<lparr>src_position = (\<lambda>w. (0, w)), src_size = (\<lambda>w. (10, w)),
     src_read = (\<lambda>n w. (n, w)),
     dst_write = (\<lambda>n w. if w = 0 then (6, 6) else (Failure, w)), buffer_alloc = (\<lambda>n. True)\<rparr>"

lemma Stream_copy_write_error_example:
  "Stream_copy breaking_writer 0 0 10 10
     = Some (10, 0x80, 6, \<lparr>reads = [(10, 10), (0, 0)], writes = [(10, 6), (4, - 1)]\<rparr>)
   \<and> bytes_transferred \<lparr>reads = [(10, 10), (0, 0)], writes = [(10, 6), (4, - 1)]\<rparr> = 6"
  by (simp add: bytes_transferred_def) code_simp





section \<open>TinyTRL\_Strings: String\<close>

text \<open>
  The object is the 24-byte union of \<open>{_chars, _capacity, _length}\<close> and
  \<open>_bytes[ShortLength]\<close> (little endian). The model keeps
  \<^item> \<open>s_chars\<close>: the memory that the pointer \<open>_chars\<close> addresses (the heap block of a long
    string, the caller's memory of a wrapped one);
  \<^item> \<open>s_capacity\<close> and \<open>s_length\<close>: the words \<open>_capacity\<close> and \<open>_length\<close>; the most
    significant byte of \<open>_length\<close> is \<open>_bytes[ShortLengthOffset]\<close>, the byte that holds the
    long bit, the short pollute bit and the short length;
  \<^item> \<open>s_bytes\<close>: \<open>_bytes[0 .. ShortLengthOffset)\<close>, the inline characters of a short string.

  Bytes of the union that the current representation does not read (the inline bytes of a
  long string, the low bytes of \<open>_length\<close> and \<open>_capacity\<close> of a short one) are not
  tracked through the overlay. A \<open>String const&\<close> argument is a value: a call that passes
  the object itself as the argument is outside the model.
\<close>

type_synonym byte = "8 word"

record String =
  s_chars :: "byte list"
  s_capacity :: "64 word"
  s_length :: "64 word"
  s_bytes :: "byte list"

definition String_MaxLength :: int where
  "String_MaxLength = 2 ^ 63 - 2"

definition ShortLength :: int where
  "ShortLength = 24"

definition ShortCapacity :: int where
  "ShortCapacity = ShortLength - 1"

definition ShortLengthMask :: byte where
  "ShortLengthMask = 0x3F"

definition ShortLongBit :: byte where
  "ShortLongBit = 0x80"

definition ShortPolluteBit :: byte where
  "ShortPolluteBit = 0x40"

definition LongLengthMask :: "64 word" where
  "LongLengthMask = 0x7FFFFFFFFFFFFFFF"

definition LongBit :: "64 word" where
  "LongBit = 0x8000000000000000"

definition NullLength :: int where
  "NullLength = 1"

text \<open>
  \<open>malloc(n)\<close>: \<open>None\<close> is \<open>NULL\<close>, otherwise the new block with the indeterminate
  bytes it holds. \<open>realloc\<close> keeps the old bytes that fit.
\<close>

type_synonym heap_alloc = "int \<Rightarrow> byte list option"

definition realloc :: "heap_alloc \<Rightarrow> byte list \<Rightarrow> int \<Rightarrow> byte list option" where
  "realloc al old n = map_option (\<lambda>fresh. take (nat n) old @ drop (length old) fresh) (al n)"

text \<open>\<open>memcpy(dst + off, src, n)\<close> and \<open>memmove(data + to, data + from, n)\<close>, as the new contents of the destination.\<close>

definition memcpy :: "byte list \<Rightarrow> int \<Rightarrow> byte list \<Rightarrow> int \<Rightarrow> byte list" where
  "memcpy dst off src n = take (nat off) dst @ take (nat n) src @ drop (nat off + nat n) dst"

definition memmove :: "byte list \<Rightarrow> int \<Rightarrow> int \<Rightarrow> int \<Rightarrow> byte list" where
  "memmove d to from n = memcpy d to (drop (nat from) d) n"

text \<open>\<open>_bytes[ShortLengthOffset]\<close>, read and written.\<close>

definition last_byte :: "String \<Rightarrow> byte" where
  "last_byte s = ucast (drop_bit 56 (s_length s))"

definition set_last_byte :: "byte \<Rightarrow> String \<Rightarrow> String" where
  "set_last_byte b s = s\<lparr>s_length := (s_length s AND mask 56) OR push_bit 56 (ucast b)\<rparr>"

text \<open>The default constructor, and the assignments \<open>_chars = nullptr; _capacity = _length = 0\<close>.\<close>

definition String_empty :: String where
  "String_empty = \<lparr>s_chars = [], s_capacity = 0, s_length = 0, s_bytes = replicate 23 0\<rparr>"

definition longBit :: "String \<Rightarrow> bool" where
  "longBit s \<longleftrightarrow> last_byte s AND ShortLongBit \<noteq> 0"

definition wrappedBit :: "String \<Rightarrow> bool" where
  "wrappedBit s \<longleftrightarrow> s_capacity s AND LongLengthMask = 0"

definition longLength :: "String \<Rightarrow> int" where
  "longLength s = sint (s_length s AND LongLengthMask)"

definition shortLength :: "String \<Rightarrow> int" where
  "shortLength s = uint (last_byte s AND ShortLengthMask)"

definition String_length :: "String \<Rightarrow> int" where
  "String_length s = (if longBit s then longLength s else shortLength s)"

definition String_capacity :: "String \<Rightarrow> int" where
  "String_capacity s =
     (if longBit s then
        (if \<not> wrappedBit s then sint (s_capacity s AND LongLengthMask) - NullLength else 0)
      else ShortCapacity - NullLength)"

definition String_wrapped :: "String \<Rightarrow> bool" where
  "String_wrapped s \<longleftrightarrow> longBit s \<and> wrappedBit s"

text \<open>\<open>operator bool\<close> and \<open>pollute()\<close>.\<close>

definition String_valid :: "String \<Rightarrow> bool" where
  "String_valid s =
     (if longBit s then s_capacity s AND LongBit = 0 else last_byte s AND ShortPolluteBit = 0)"

definition String_pollute :: "String \<Rightarrow> String" where
  "String_pollute s =
     (if longBit s then s\<lparr>s_capacity := s_capacity s OR LongBit\<rparr>
      else set_last_byte (last_byte s OR ShortPolluteBit) s)"

text \<open>
  \<open>data()\<close>: the memory it points to, and the same memory after a write through it. The
  characters of the string are the first \<open>length()\<close> bytes of it.
\<close>

definition String_data :: "String \<Rightarrow> byte list" where
  "String_data s = (if longBit s then s_chars s else s_bytes s)"

definition String_set_data :: "String \<Rightarrow> byte list \<Rightarrow> String" where
  "String_set_data s d = (if longBit s then s\<lparr>s_chars := d\<rparr> else s\<lparr>s_bytes := d\<rparr>)"

definition String_text :: "String \<Rightarrow> byte list" where
  "String_text s = take (nat (String_length s)) (String_data s)"

text \<open>
  \<open>reallocate(capacity, copyNullLength)\<close>. Two of its copies can leave the memory they
  write to, and the function has no result then (\<open>None\<close>): the copy of
  \<open>length + NullLength\<close> bytes into the local array \<open>char shortContent[ShortCapacity]\<close> when a
  short string of \<open>ShortCapacity\<close> characters is moved to the heap, and the copy of more than
  \<open>ShortLength\<close> bytes into \<open>_bytes\<close> when a wrapped string is made short.
\<close>

definition String_reallocate ::
  "heap_alloc \<Rightarrow> String \<Rightarrow> int \<Rightarrow> int \<Rightarrow> (bool \<times> String) option" where
  "String_reallocate al s capacity copyNullLength =
     (if longBit s then
        (let polluteBit = s_capacity s AND LongBit in
         if \<not> wrappedBit s then
           (case realloc al (s_chars s) capacity of
              Some chars \<Rightarrow>
                Some (True, s\<lparr>s_chars := chars, s_capacity := word_of_int capacity OR polluteBit\<rparr>)
            | None \<Rightarrow> Some (False, s))
         else
           (let len = longLength s in
            if capacity > ShortCapacity then
              (case al capacity of
                 Some chars \<Rightarrow>
                   Some (True, s\<lparr>s_chars := memcpy chars 0 (s_chars s) (len + copyNullLength),
                                  s_capacity := word_of_int capacity OR polluteBit\<rparr>)
               | None \<Rightarrow> Some (False, s))
            else if len + copyNullLength > ShortLength then None
            else
              Some (True, set_last_byte
                       (word_of_int len OR (if polluteBit \<noteq> 0 then ShortPolluteBit else 0))
                       (s\<lparr>s_bytes := take (nat ShortCapacity)
                                      (memcpy (s_bytes s) 0 (s_chars s) (len + copyNullLength))\<rparr>))))
      else
        (case al capacity of
           Some chars \<Rightarrow>
             (let polluteBit = (if last_byte s AND ShortPolluteBit \<noteq> 0 then LongBit else 0);
                  len = shortLength s
              in if len + NullLength > ShortCapacity then None
                 else
                   (let shortContent = take (nat (len + NullLength)) (s_bytes s)
                    in Some (True, s\<lparr>s_chars := memcpy chars 0 shortContent (len + NullLength),
                                     s_capacity := word_of_int capacity OR polluteBit,
                                     s_length := word_of_int len OR LongBit\<rparr>)))
         | None \<Rightarrow> Some (False, s)))"

text \<open>\<open>internalCapacity(capacity)\<close>.\<close>

definition String_internalCapacity :: "heap_alloc \<Rightarrow> String \<Rightarrow> int \<Rightarrow> (bool \<times> String) option" where
  "String_internalCapacity al s capacity =
     (let actualCapacity = String_capacity s
      in if actualCapacity < capacity then
           do { c \<leftarrow> computeNextCapacity3 (capacity + NullLength) actualCapacity ShortCapacity;
                String_reallocate al s c 0 }
         else Some (True, s))"

text \<open>\<open>writeLength(length)\<close>.\<close>

definition String_writeLength :: "String \<Rightarrow> int \<Rightarrow> String" where
  "String_writeLength s len =
     (if longBit s then
        s\<lparr>s_length := word_of_int len OR LongBit, s_chars := (s_chars s)[nat len := 0]\<rparr>
      else
        (let s1 = set_last_byte (word_of_int len OR (last_byte s AND ShortPolluteBit)) s
         in if len = 23 then set_last_byte 0 s1
            else s1\<lparr>s_bytes := (s_bytes s1)[nat len := 0]\<rparr>))"

text \<open>\<open>bool length(Length length)\<close>.\<close>

definition String_set_length :: "heap_alloc \<Rightarrow> String \<Rightarrow> int \<Rightarrow> (bool \<times> String) option" where
  "String_set_length al s len =
     (if len \<ge> 0 \<and> len \<le> String_MaxLength then
        (if String_length s \<noteq> len then
           do { (ok, s1) \<leftarrow> String_internalCapacity al s len;
                if ok then Some (True, String_writeLength s1 len) else Some (False, s1) }
         else Some (True, s))
      else Some (False, s))"

text \<open>\<open>String::FromRawBytes(buffer, length)\<close> for a buffer that is not \<open>NULL\<close>.\<close>

definition String_FromRawBytes :: "heap_alloc \<Rightarrow> byte list \<Rightarrow> int \<Rightarrow> String option" where
  "String_FromRawBytes al buffer len =
     (if len \<ge> 0 \<and> len \<le> String_MaxLength then
        do { (ok, res) \<leftarrow> String_set_length al String_empty len;
             if ok then Some (String_set_data res (memcpy (String_data res) 0 buffer len))
             else Some (String_pollute res) }
      else Some (String_pollute String_empty))"

text \<open>
  \<open>String::Wrap(string, length)\<close> for a pointer that is not \<open>NULL\<close>: \<open>mem\<close> is the memory
  at \<open>string\<close>, \<open>aligned\<close> says whether the pointer is a multiple of \<open>alignof(String)\<close>, and
  \<open>strlen\<close> is what \<open>utility::calculateLength(string)\<close> returns (its definition is not part
  of the sources).
\<close>

definition String_Wrap :: "heap_alloc \<Rightarrow> bool \<Rightarrow> int \<Rightarrow> byte list \<Rightarrow> int \<Rightarrow> String option" where
  "String_Wrap al aligned strlen mem length0 =
     (if length0 \<ge> 0 \<and> length0 \<le> String_MaxLength then
        (let len = (if length0 = 0 then strlen else length0) in
         if len \<le> ShortCapacity then
           Some (set_last_byte (word_of_int len)
                   (String_empty\<lparr>s_bytes := memcpy (s_bytes String_empty) 0 mem len\<rparr>))
         else if \<not> aligned then
           do { (ok, res) \<leftarrow> String_set_length al String_empty len;
                if ok then Some (res\<lparr>s_chars := memcpy (s_chars res) 0 mem (len + NullLength)\<rparr>)
                else Some (String_pollute res) }
         else Some (String_empty\<lparr>s_chars := mem, s_length := word_of_int len OR LongBit\<rparr>))
      else Some (String_pollute String_empty))"

text \<open>\<open>internalAppend(String const&)\<close> and \<open>append(String const&)\<close>.\<close>

definition String_internalAppend :: "heap_alloc \<Rightarrow> String \<Rightarrow> String \<Rightarrow> (bool \<times> String) option" where
  "String_internalAppend al s suffix =
     (let len = String_length s;
          suffixLength0 = String_length suffix;
          overflow = len > String_MaxLength - suffixLength0;
          destLength = (if overflow then String_MaxLength else len + suffixLength0);
          suffixLength = (if overflow then String_MaxLength - len else suffixLength0);
          complete = \<not> overflow
      in if suffixLength \<noteq> 0 then
           do { (ok, s1) \<leftarrow> String_internalCapacity al s destLength;
                if \<not> ok then Some (False, s1)
                else Some (complete,
                       String_writeLength
                         (String_set_data s1
                            (memcpy (String_data s1) len (String_data suffix) suffixLength))
                         destLength) }
         else Some (complete, s))"

definition String_append :: "heap_alloc \<Rightarrow> String \<Rightarrow> String \<Rightarrow> String option" where
  "String_append al s suffix =
     do { (ok, s1) \<leftarrow> String_internalAppend al s suffix;
          Some (if \<not> ok \<or> \<not> String_valid suffix then String_pollute s1 else s1) }"

text \<open>\<open>internalPrepend(String const&)\<close> and \<open>prepend(String const&)\<close>.\<close>

definition String_internalPrepend :: "heap_alloc \<Rightarrow> String \<Rightarrow> String \<Rightarrow> (bool \<times> String) option" where
  "String_internalPrepend al s prefix =
     (let prefixLength = String_length prefix
      in if prefixLength \<noteq> 0 then
           (let len0 = String_length s;
                overflow = len0 > String_MaxLength - prefixLength;
                destLength = (if overflow then String_MaxLength else len0 + prefixLength);
                len = (if overflow then String_MaxLength - prefixLength else len0);
                complete = \<not> overflow
            in do { (ok, s1) \<leftarrow> String_internalCapacity al s destLength;
                    if \<not> ok then Some (False, s1)
                    else
                      (let d0 = String_data s1;
                           d1 = (if len \<noteq> 0 then memmove d0 prefixLength 0 len else d0);
                           d2 = memcpy d1 0 (String_data prefix) prefixLength
                       in Some (complete, String_writeLength (String_set_data s1 d2) destLength)) })
         else Some (True, s))"

definition String_prepend :: "heap_alloc \<Rightarrow> String \<Rightarrow> String \<Rightarrow> String option" where
  "String_prepend al s prefix =
     do { (ok, s1) \<leftarrow> String_internalPrepend al s prefix;
          Some (if \<not> ok then String_pollute s1 else s1) }"

text \<open>
  \<open>internalConcatenate(String const&, String const&)\<close>, \<open>concatenate\<close> of two strings and
  \<open>operator + (String const&, String const&)\<close>.
\<close>

definition String_internalConcatenate ::
  "heap_alloc \<Rightarrow> String \<Rightarrow> String \<Rightarrow> String \<Rightarrow> (bool \<times> String) option" where
  "String_internalConcatenate al s prefix suffix =
     (let prefixLength = String_length prefix;
          suffixLength0 = String_length suffix;
          overflow = suffixLength0 > String_MaxLength - prefixLength;
          destLength = (if overflow then String_MaxLength else prefixLength + suffixLength0);
          suffixLength = (if overflow then String_MaxLength - prefixLength else suffixLength0);
          complete = \<not> overflow
      in do { (ok, s1) \<leftarrow> String_internalCapacity al s destLength;
              if \<not> ok then Some (False, s1)
              else
                (let d0 = String_data s1;
                     d1 = (if prefixLength \<noteq> 0 then memcpy d0 0 (String_data prefix) prefixLength
                           else d0);
                     d2 = (if suffixLength \<noteq> 0
                           then memcpy d1 prefixLength (String_data suffix) suffixLength else d1)
                 in Some (complete, String_writeLength (String_set_data s1 d2) destLength)) })"


definition String_plus :: "heap_alloc \<Rightarrow> String \<Rightarrow> String \<Rightarrow> String option" where
  "String_plus al prefix suffix =
     do { (ok, res) \<leftarrow> String_internalConcatenate al String_empty prefix suffix;
          Some (if \<not> ok \<or> \<not> String_valid prefix \<or> \<not> String_valid suffix
                then String_pollute res else res) }"

text \<open>
  \<open>unwrap()\<close>, \<open>erase(position, length)\<close> and \<open>shrink()\<close>. In \<open>erase\<close> the sum
  \<open>position + length\<close> has no guard and is taken with the wrap-around of \<open>int64_t\<close>. When the
  range that is left reaches outside the characters of the string (a negative \<open>length\<close>
  after \<open>length += position\<close>, or an end beyond \<open>currentLength\<close>), \<open>memmove\<close> reads outside
  the string's memory and \<open>erase\<close> has no result.
\<close>

definition String_unwrap :: "heap_alloc \<Rightarrow> String \<Rightarrow> (bool \<times> String) option" where
  "String_unwrap al s =
     (if \<not> String_wrapped s then Some (True, s)
      else String_reallocate al s (longLength s + NullLength) NullLength)"

definition String_erase :: "heap_alloc \<Rightarrow> String \<Rightarrow> int \<Rightarrow> int \<Rightarrow> String option" where
  "String_erase al s position0 length0 =
     (let len1 = max (if length0 = NotFound then String_length s else length0) 0
      in if len1 \<noteq> 0 then
           (let currentLength = String_length s;
                len2 = (if position0 < 0 then len1 + position0 else len1);
                position1 = (if position0 < 0 then 0 else position0);
                clip = s64 (position1 + len2) > currentLength;
                len = (if clip then max (currentLength - position1) 0 else len2);
                position = (if clip then min position1 currentLength else position1)
            in if len \<noteq> 0 then
                 do { (ok, s1) \<leftarrow> String_unwrap al s;
                      if \<not> ok then Some (String_pollute s1)
                      else if len < 0 \<or> position + len > currentLength then None
                      else
                        (let moveLength = currentLength - (position + len);
                             d = (if moveLength \<noteq> 0
                                  then memmove (String_data s1) position (position + len) moveLength
                                  else String_data s1)
                         in Some (String_writeLength (String_set_data s1 d) (currentLength - len))) }
               else Some s)
         else Some s)"

definition String_shrink :: "heap_alloc \<Rightarrow> String \<Rightarrow> (bool \<times> String) option" where
  "String_shrink al s =
     (if \<not> String_wrapped s then
        (let len = String_length s
         in if len \<noteq> 0 then
              (if len + NullLength \<le> ShortCapacity then
                 (if longBit s then
                    (let polluteBit = s_capacity s AND LongBit
                     in Some (True, set_last_byte
                                 (word_of_int len OR (if polluteBit \<noteq> 0 then ShortPolluteBit else 0))
                                 (s\<lparr>s_bytes := memcpy (s_bytes s) 0 (s_chars s) (len + NullLength)\<rparr>)))
                  else Some (True, s))
               else String_reallocate al s (len + NullLength) NullLength)
            else Some (True, String_empty))
      else Some (False, s))"


section \<open>Facts about the bit-packed fields\<close>

lemma LongBit_exp: "LongBit = 2 ^ 63"
  by (simp add: LongBit_def)

lemma LongLengthMask_mask: "LongLengthMask = mask 63"
  by (simp add: LongLengthMask_def mask_eq_exp_minus_1)

lemma ShortLongBit_exp: "ShortLongBit = 2 ^ 7"
  by (simp add: ShortLongBit_def)

lemma ShortPolluteBit_exp: "ShortPolluteBit = 2 ^ 6"
  by (simp add: ShortPolluteBit_def)

lemma ShortLengthMask_mask: "ShortLengthMask = mask 6"
  by (simp add: ShortLengthMask_def mask_eq_exp_minus_1)

lemma bit_last_byte: "bit (last_byte s) n \<longleftrightarrow> n < 8 \<and> bit (s_length s) (56 + n)"
  by (auto simp: last_byte_def bit_ucast_iff bit_drop_bit_eq add.commute)

lemma longBit_iff: "longBit s \<longleftrightarrow> bit (last_byte s) 7"
  by (simp only: longBit_def ShortLongBit_exp and_exp_eq_0_iff_not_bit not_not)

lemma last_byte_set [simp]: "last_byte (set_last_byte b s) = b"
  by (rule bit_word_eqI) (auto simp: last_byte_def set_last_byte_def bit_simps)

lemma set_last_byte_fields [simp]:
  "s_chars (set_last_byte b s) = s_chars s"
  "s_capacity (set_last_byte b s) = s_capacity s"
  "s_bytes (set_last_byte b s) = s_bytes s"
  by (simp_all add: set_last_byte_def)

lemma word64_of_length:
  assumes "0 \<le> n" "n < 2 ^ 63"
  shows "sint ((word_of_int n OR LongBit) AND LongLengthMask :: 64 word) = n"
    and "sint ((word_of_int n OR (c AND LongBit)) AND LongLengthMask :: 64 word) = n"
    and "bit (word_of_int n :: 64 word) 63 = False"
proof -
  have tb: "take_bit 63 n = n" using assms by (simp add: take_bit_int_eq_self)
  have a: "(word_of_int n :: 64 word) AND mask 63 = word_of_int n"
    by (simp add: and_mask_wi tb)
  have b: "(2 ^ 63 :: 64 word) AND mask 63 = 0"
    by (simp add: mask_eq_exp_minus_1)
  have c0: "(c AND 2 ^ 63) AND mask 63 = (0 :: 64 word)"
    by (metis b and.assoc and_zero_eq)
  have s: "sint (word_of_int n :: 64 word) = n"
    using assms by (simp add: sint_sbintrunc' signed_take_bit_int_eq_self)
  show "sint ((word_of_int n OR LongBit) AND LongLengthMask :: 64 word) = n"
    by (simp only: LongBit_exp LongLengthMask_mask word_ao_dist a b s or.right_neutral)
  show "sint ((word_of_int n OR (c AND LongBit)) AND LongLengthMask :: 64 word) = n"
    by (simp only: LongBit_exp LongLengthMask_mask word_ao_dist a c0 s or.right_neutral)
  show "bit (word_of_int n :: 64 word) 63 = False"
    using tb by (metis a bit_and_iff bit_mask_iff less_irrefl)
qed

lemma bit63_LongBit [simp]: "bit (w OR LongBit :: 64 word) 63"
  by (simp add: LongBit_exp bit_or_iff bit_exp_iff)

lemma byte_of_length:
  assumes "0 \<le> n" "n < 64"
  shows "uint ((word_of_int n OR (b AND ShortPolluteBit)) AND ShortLengthMask :: byte) = n"
    and "bit (word_of_int n OR (b AND ShortPolluteBit) :: byte) 7 = False"
    and "bit (word_of_int n OR (b AND ShortPolluteBit) :: byte) 6 = bit b 6"
proof -
  have tb: "take_bit 6 n = n" using assms by (simp add: take_bit_int_eq_self)
  have a: "(word_of_int n :: byte) AND mask 6 = word_of_int n"
    by (simp add: and_mask_wi tb)
  have nb: "\<not> bit (word_of_int n :: byte) k" if "6 \<le> k" for k
    using that by (metis a bit_and_iff bit_mask_iff not_le)
  have u: "uint (word_of_int n :: byte) = n"
    using assms by (simp add: uint_word_of_int_eq take_bit_int_eq_self)
  have e: "(2 ^ 6 :: byte) AND mask 6 = 0"
    by (simp add: mask_eq_exp_minus_1)
  have c0: "(b AND 2 ^ 6) AND mask 6 = (0 :: byte)"
    by (metis e and.assoc and_zero_eq)
  have b6: "bit (2 ^ 6 :: byte) 6" "\<not> bit (2 ^ 6 :: byte) 7"
    by (simp_all only: bit_exp_iff) simp_all
  show "uint ((word_of_int n OR (b AND ShortPolluteBit)) AND ShortLengthMask :: byte) = n"
    by (simp only: ShortPolluteBit_exp ShortLengthMask_mask word_ao_dist a c0 u or.right_neutral)
  show "bit (word_of_int n OR (b AND ShortPolluteBit) :: byte) 7 = False"
    using nb [of 7] b6 by (simp only: ShortPolluteBit_exp bit_or_iff bit_and_iff) simp
  show "bit (word_of_int n OR (b AND ShortPolluteBit) :: byte) 6 = bit b 6"
    using nb [of 6] b6 by (simp only: ShortPolluteBit_exp bit_or_iff bit_and_iff) simp
qed

section \<open>Facts about String\<close>

lemma longBit_update [simp]:
  "longBit (s\<lparr>s_chars := x\<rparr>) = longBit s"
  "longBit (s\<lparr>s_capacity := y\<rparr>) = longBit s"
  "longBit (s\<lparr>s_bytes := z\<rparr>) = longBit s"
  by (simp_all add: longBit_def last_byte_def)

lemma last_byte_update [simp]:
  "last_byte (s\<lparr>s_chars := x\<rparr>) = last_byte s"
  "last_byte (s\<lparr>s_capacity := y\<rparr>) = last_byte s"
  "last_byte (s\<lparr>s_bytes := z\<rparr>) = last_byte s"
  by (simp_all add: last_byte_def)

lemma longBit_long_write [simp]: "longBit (s\<lparr>s_length := w OR LongBit\<rparr>)"
  by (simp add: longBit_iff bit_last_byte)

lemma String_pollute_invalid [simp]: "\<not> String_valid (String_pollute s)"
proof (cases "longBit s")
  case True
  have "(s_capacity s OR LongBit) AND LongBit = LongBit" by (rule or_and_absorb)
  moreover have "LongBit \<noteq> 0" by (simp add: LongBit_def)
  ultimately show ?thesis using True by (simp add: String_valid_def String_pollute_def)
next
  case False
  have nl: "\<not> longBit (set_last_byte (last_byte s OR ShortPolluteBit) s)"
    using False
    by (simp only: longBit_iff last_byte_set ShortPolluteBit_exp bit_or_iff bit_exp_iff) simp
  have "(last_byte s OR ShortPolluteBit) AND ShortPolluteBit = ShortPolluteBit" by (rule or_and_absorb)
  moreover have "ShortPolluteBit \<noteq> 0" by (simp add: ShortPolluteBit_def)
  ultimately show ?thesis using False nl by (simp add: String_valid_def String_pollute_def)
qed

lemma sint_masked:
  fixes w :: "64 word"
  shows "sint (w AND LongLengthMask) = uint (w AND LongLengthMask)"
proof -
  have "uint (w AND mask 63) < 2 ^ 63" by (rule and_mask_lt_2p)
  moreover have "- (2 ^ 63) \<le> uint (w AND mask 63)"
    by (rule order_trans [OF _ uint_nonnegative]) simp
  ultimately have "signed_take_bit 63 (uint (w AND mask 63)) = uint (w AND mask 63)"
    by (intro signed_take_bit_int_eq_self) auto
  then show ?thesis by (simp add: sint_uint LongLengthMask_mask)
qed

lemma String_length_nonneg: "0 \<le> String_length s"
  by (simp add: String_length_def longLength_def shortLength_def sint_masked)

lemma String_capacity_nonneg: "0 \<le> String_capacity s"
proof -
  let ?m = "s_capacity s AND LongLengthMask"
  have "?m \<noteq> 0 \<Longrightarrow> 1 \<le> uint ?m"
    using uint_nonnegative [of ?m] uint_0_iff [of ?m] by linarith
  then show ?thesis
    by (auto simp: String_capacity_def wrappedBit_def ShortCapacity_def ShortLength_def
        NullLength_def sint_masked)
qed

lemma capacity_word_pollute:
  assumes "0 \<le> c" "c < 2 ^ 63"
  shows "(word_of_int c OR p) AND LongBit = p AND (LongBit :: 64 word)"
proof -
  have "\<not> bit (word_of_int c :: 64 word) 63" using word64_of_length(3) [OF assms] by simp
  then have "(word_of_int c :: 64 word) AND 2 ^ 63 = 0"
    unfolding and_exp_eq_0_iff_not_bit .
  then show ?thesis by (simp only: LongBit_exp word_ao_dist or.left_neutral)
qed

lemma short_byte_pollute:
  assumes "0 \<le> n" "n < 64" "p = 0 \<or> p = ShortPolluteBit"
  shows "bit (word_of_int n OR p :: byte) 7 = False"
    and "(word_of_int n OR p) AND ShortPolluteBit = p"
    and "uint ((word_of_int n OR p :: byte) AND ShortLengthMask) = n"
proof -
  have p: "p = p AND ShortPolluteBit" using assms(3) by auto
  have b7: "bit (word_of_int n OR (p AND ShortPolluteBit) :: byte) 7 = False"
    and b6: "bit (word_of_int n OR (p AND ShortPolluteBit) :: byte) 6 = bit p 6"
    and u: "uint ((word_of_int n OR (p AND ShortPolluteBit)) AND ShortLengthMask :: byte) = n"
    using byte_of_length [OF assms(1,2), of p] by auto
  show "bit (word_of_int n OR p :: byte) 7 = False" using b7 p by simp
  show "uint ((word_of_int n OR p :: byte) AND ShortLengthMask) = n" using u p by simp
  have "\<not> bit (word_of_int n :: byte) 6"
    using byte_of_length(3) [OF assms(1,2), of 0] by simp
  then have "(word_of_int n :: byte) AND 2 ^ 6 = 0"
    unfolding and_exp_eq_0_iff_not_bit .
  then have "(word_of_int n OR p) AND ShortPolluteBit = p AND ShortPolluteBit"
    by (simp only: ShortPolluteBit_exp word_ao_dist or.left_neutral)
  then show "(word_of_int n OR p) AND ShortPolluteBit = p" using p by simp
qed

lemma String_reallocate_valid:
  assumes "String_reallocate al s c k = Some (True, s1)" "0 \<le> c" "c < 2 ^ 63" "String_length s < c"
  shows "String_valid s1 = String_valid s" and "longBit s1 \<or> c \<le> ShortCapacity"
    and "String_length s1 = String_length s"
proof -
  have r: "String_valid s1 = String_valid s \<and> (longBit s1 \<or> c \<le> ShortCapacity)
           \<and> String_length s1 = String_length s"
  proof (cases "longBit s")
    case False
    then obtain chars where "al c = Some chars"
      and s1: "s1 = s\<lparr>s_chars := memcpy chars 0 (take (nat (shortLength s + NullLength)) (s_bytes s))
                          (shortLength s + NullLength),
                 s_capacity := word_of_int c OR (if last_byte s AND ShortPolluteBit \<noteq> 0 then LongBit else 0),
                 s_length := word_of_int (shortLength s) OR LongBit\<rparr>"
      using assms(1)
      by (auto simp: String_reallocate_def Let_def split: option.splits if_splits)
    have sl: "0 \<le> shortLength s" "shortLength s < 2 ^ 63"
      using assms(3,4) False by (simp_all add: shortLength_def String_length_def)
    have "longLength s1 = shortLength s"
      using word64_of_length(1) [OF sl] by (simp add: s1 longLength_def)
    moreover have "String_valid s1 = String_valid s"
    proof -
      define p where "p = (if last_byte s AND ShortPolluteBit \<noteq> 0 then LongBit else 0)"
      have "LongBit \<noteq> 0" by (simp add: LongBit_def)
      then have "p AND LongBit = 0 \<longleftrightarrow> last_byte s AND ShortPolluteBit = 0"
        by (simp add: p_def)
      moreover have "s_capacity s1 AND LongBit = p AND LongBit"
        using capacity_word_pollute [OF assms(2,3), of p] by (simp add: s1 p_def)
      moreover have "longBit s1" by (simp add: s1)
      ultimately show ?thesis using False by (simp add: String_valid_def)
    qed
    ultimately show ?thesis using False by (simp add: s1 String_length_def)
  next
    case True
    show ?thesis
    proof (cases "wrappedBit s")
      case False
      then obtain chars where
        s1: "s1 = s\<lparr>s_chars := chars, s_capacity := word_of_int c OR (s_capacity s AND LongBit)\<rparr>"
        using assms(1) True by (auto simp: String_reallocate_def Let_def split: option.splits)
      have "String_valid s1 = String_valid s"
        using True capacity_word_pollute [OF assms(2,3)]
        by (simp add: s1 String_valid_def and.assoc)
      then show ?thesis using True by (simp add: s1 String_length_def longLength_def)
    next
      case wr: True
      show ?thesis
      proof (cases "c > ShortCapacity")
        case big: True
        then obtain chars where
          s1: "s1 = s\<lparr>s_chars := memcpy chars 0 (s_chars s) (longLength s + k),
                      s_capacity := word_of_int c OR (s_capacity s AND LongBit)\<rparr>"
          using assms(1) True wr by (auto simp: String_reallocate_def Let_def split: option.splits)
        have "String_valid s1 = String_valid s"
          using True capacity_word_pollute [OF assms(2,3)]
          by (simp add: s1 String_valid_def and.assoc)
        then show ?thesis using True by (simp add: s1 String_length_def longLength_def)
      next
        case small: False
        define p where "p = (if s_capacity s AND LongBit \<noteq> 0 then ShortPolluteBit else 0)"
        have s1: "s1 = set_last_byte (word_of_int (longLength s) OR p)
                    (s\<lparr>s_bytes := take (nat ShortCapacity)
                                   (memcpy (s_bytes s) 0 (s_chars s) (longLength s + k))\<rparr>)"
          using assms(1) True wr small
          by (simp add: String_reallocate_def Let_def p_def split: if_splits)
        have n: "0 \<le> longLength s" "longLength s < 64"
          using String_length_nonneg [of s] assms(4) small True
          by (simp_all add: String_length_def ShortCapacity_def ShortLength_def)
        have pp: "p = 0 \<or> p = ShortPolluteBit" by (simp add: p_def)
        note sb = short_byte_pollute [OF n pp]
        have nl: "\<not> longBit s1" using sb(1) by (simp add: s1 longBit_iff)
        have "String_valid s1 \<longleftrightarrow> p = 0" using nl sb(2) by (simp add: s1 String_valid_def)
        moreover have "p = 0 \<longleftrightarrow> String_valid s"
          using True by (simp add: p_def String_valid_def ShortPolluteBit_def)
        moreover have "String_length s1 = longLength s"
          using nl sb(3) by (simp add: s1 String_length_def shortLength_def)
        ultimately show ?thesis using True small by (simp add: String_length_def)
      qed
    qed
  qed
  show "String_valid s1 = String_valid s" and "longBit s1 \<or> c \<le> ShortCapacity"
    and "String_length s1 = String_length s"
    using r by simp_all
qed


lemma String_internalCapacity_valid:
  assumes "String_internalCapacity al s n = Some (True, s1)" "String_length s \<le> n"
    and "n \<le> String_MaxLength"
  shows "String_valid s1 = String_valid s" and "longBit s1 \<or> n \<le> 22"
    and "String_length s1 = String_length s"
proof -
  have r: "String_valid s1 = String_valid s \<and> (longBit s1 \<or> n \<le> 22)
           \<and> String_length s1 = String_length s"
  proof (cases "String_capacity s < n")
    case False
    then have "s1 = s" using assms(1) by (simp add: String_internalCapacity_def)
    moreover have "longBit s \<or> n \<le> 22"
      using False
      by (auto simp: String_capacity_def ShortCapacity_def ShortLength_def NullLength_def
          split: if_splits)
    ultimately show ?thesis by simp
  next
    case True
    then obtain c where c: "computeNextCapacity3 (n + NullLength) (String_capacity s) ShortCapacity = Some c"
      and re: "String_reallocate al s c 0 = Some (True, s1)"
      using assms(1) by (auto simp: String_internalCapacity_def split: Option.bind_splits)
    have "n + NullLength < 2 ^ 63" using assms(3) by (simp add: String_MaxLength_def NullLength_def)
    note b = computeNextCapacity3_result [OF this c]
    have "0 \<le> c" "String_length s < c"
      using b(1) assms(2) String_length_nonneg [of s] by (simp_all add: NullLength_def)
    from String_reallocate_valid [OF re this(1) b(2) this(2)] b(1)
    show ?thesis by (auto simp: ShortCapacity_def ShortLength_def NullLength_def)
  qed
  show "String_valid s1 = String_valid s" and "longBit s1 \<or> n \<le> 22"
    and "String_length s1 = String_length s"
    using r by simp_all
qed

lemma String_set_data_simps [simp]:
  "longBit (String_set_data s d) = longBit s"
  "String_valid (String_set_data s d) = String_valid s"
  "last_byte (String_set_data s d) = last_byte s"
  "s_capacity (String_set_data s d) = s_capacity s"
  "s_length (String_set_data s d) = s_length s"
  by (simp_all add: String_set_data_def String_valid_def last_byte_def longBit_def)

lemma String_writeLength_long:
  assumes "longBit s" "0 \<le> n" "n < 2 ^ 63"
  shows "longBit (String_writeLength s n)" and "String_length (String_writeLength s n) = n"
    and "String_valid (String_writeLength s n) = String_valid s"
    and "s_chars (String_writeLength s n) = (s_chars s)[nat n := 0]"
    and "s_capacity (String_writeLength s n) = s_capacity s"
proof -
  have w: "String_writeLength s n
           = s\<lparr>s_length := word_of_int n OR LongBit, s_chars := (s_chars s)[nat n := 0]\<rparr>"
    using assms(1) by (simp add: String_writeLength_def)
  show lb: "longBit (String_writeLength s n)" by (simp add: w)
  show "String_length (String_writeLength s n) = n"
    using lb word64_of_length(1) [OF assms(2,3)] by (simp add: String_length_def) (simp add: w longLength_def)
  show "String_valid (String_writeLength s n) = String_valid s"
    using lb assms(1) by (simp add: String_valid_def) (simp add: w)
  show "s_chars (String_writeLength s n) = (s_chars s)[nat n := 0]" by (simp add: w)
  show "s_capacity (String_writeLength s n) = s_capacity s" by (simp add: w)
qed

lemma String_writeLength_short:
  assumes "\<not> longBit s" "0 \<le> n" "n \<le> 22"
  shows "\<not> longBit (String_writeLength s n)" and "String_length (String_writeLength s n) = n"
    and "String_valid (String_writeLength s n) = String_valid s"
    and "s_bytes (String_writeLength s n) = (s_bytes s)[nat n := 0]"
proof -
  define b where "b = (word_of_int n OR (last_byte s AND ShortPolluteBit) :: byte)"
  have w: "String_writeLength s n = (set_last_byte b s)\<lparr>s_bytes := (s_bytes s)[nat n := 0]\<rparr>"
    using assms by (simp add: String_writeLength_def Let_def b_def)
  have n: "n < 64" using assms(3) by simp
  note bl = byte_of_length [OF assms(2) n, of "last_byte s", folded b_def]
  show nl: "\<not> longBit (String_writeLength s n)" using bl(2) by (simp add: w longBit_iff)
  show "String_length (String_writeLength s n) = n"
    using nl bl(1) by (simp add: String_length_def) (simp add: w shortLength_def)
  have "b AND ShortPolluteBit = 0 \<longleftrightarrow> last_byte s AND ShortPolluteBit = 0"
    using bl(3) by (simp only: ShortPolluteBit_exp and_exp_eq_0_iff_not_bit)
  then show "String_valid (String_writeLength s n) = String_valid s"
    using nl assms(1) by (simp add: String_valid_def) (simp add: w)
  show "s_bytes (String_writeLength s n) = (s_bytes s)[nat n := 0]" by (simp add: w)
qed

lemma String_writeLength_valid:
  assumes "longBit s \<or> n \<le> 22" "0 \<le> n" "n < 2 ^ 63"
  shows "String_valid (String_writeLength s n) = String_valid s"
  using assms String_writeLength_long(3) String_writeLength_short(3) by (cases "longBit s") auto

lemma String_internalPrepend_valid:
  assumes "String_internalPrepend al A B = Some (True, A')"
  shows "String_valid A' = String_valid A"
proof (cases "String_length B = 0")
  case True
  then show ?thesis using assms by (simp add: String_internalPrepend_def)
next
  case False
  define d where "d = String_length A + String_length B"
  have no: "\<not> String_length A > String_MaxLength - String_length B"
  proof
    assume "String_length A > String_MaxLength - String_length B"
    then have "fst (the (String_internalPrepend al A B)) = False
               \<or> String_internalPrepend al A B = None"
      using False
      by (auto simp: String_internalPrepend_def Let_def split: Option.bind_splits)
    with assms show False by simp
  qed
  then have le: "String_length A \<le> d" "0 \<le> d" "d \<le> String_MaxLength" "d < 2 ^ 63"
    using String_length_nonneg [of A] String_length_nonneg [of B]
    by (simp_all add: d_def String_MaxLength_def)
  obtain ok s1 where ic: "String_internalCapacity al A d = Some (ok, s1)"
    using assms False no
    by (auto simp: String_internalPrepend_def Let_def d_def split: Option.bind_splits)
  have ok: "ok" using assms False no ic
    by (cases ok) (simp_all add: String_internalPrepend_def Let_def d_def)
  note v = String_internalCapacity_valid [OF ic [unfolded ok [THEN eqTrueI]] le(1) le(3)]
  obtain d2 where "A' = String_writeLength (String_set_data s1 d2) d"
    using assms False no ic ok
    by (auto simp add: String_internalPrepend_def Let_def d_def)
  then have "String_valid A' = String_valid s1"
    using v(2) le String_writeLength_valid [of "String_set_data s1 d2" d] by simp
  then show ?thesis using v(1) by simp
qed

text \<open>
  C10: for every non-polluted string \<open>A\<close> and every polluted string \<open>B\<close>, when the
  byte-level prepend succeeds (\<open>internalPrepend\<close> returns \<open>true\<close>), \<open>A.prepend(B)\<close> leaves
  \<open>A\<close> non-polluted: \<open>prepend(String const&)\<close> does not test its argument's pollute bit.
\<close>

theorem prepend_keeps_valid:
  assumes "String_valid A" "\<not> String_valid B"
    and "String_internalPrepend al A B = Some (True, A')"
  shows "String_prepend al A B = Some A' \<and> String_valid A'"
  using assms(1,3) String_internalPrepend_valid [OF assms(3)]
  by (simp add: String_prepend_def)

section \<open>Concrete strings\<close>

text \<open>
  Two allocators: one grants every request with a block filled with \<open>0xAA\<close>, one returns
  \<open>NULL\<close>. The strings \<open>"Hi"\<close> and \<open>"!"\<close> are short; \<open>String::Invalid()\<close> is the empty
  polluted string.
\<close>

definition heap_granting :: heap_alloc where
  "heap_granting n = Some (replicate (nat n) 0xAA)"

definition heap_refusing :: heap_alloc where
  "heap_refusing n = None"

definition str_Hi :: String where
  "str_Hi = \<lparr>s_chars = [], s_capacity = 0, s_length = 0x0200000000000000,
             s_bytes = [0x48, 0x69, 0, 0, 0, 0, 0, 0, 0, 0, 0, 0, 0, 0, 0, 0, 0, 0, 0, 0, 0, 0, 0]\<rparr>"

definition str_bang :: String where
  "str_bang = \<lparr>s_chars = [], s_capacity = 0, s_length = 0x0100000000000000,
               s_bytes = [0x21, 0, 0, 0, 0, 0, 0, 0, 0, 0, 0, 0, 0, 0, 0, 0, 0, 0, 0, 0, 0, 0, 0]\<rparr>"

definition String_Invalid :: String where
  "String_Invalid = String_pollute String_empty"

lemma str_Hi_built: "String_FromRawBytes heap_refusing [0x48, 0x69] 2 = Some str_Hi"
  by code_simp

lemma str_bang_built: "String_FromRawBytes heap_refusing [0x21] 1 = Some str_bang"
  by code_simp

theorem prepend_keeps_valid_witness:
  "String_valid str_Hi \<and> \<not> String_valid (String_pollute str_bang)
   \<and> (\<exists>r. String_prepend heap_refusing str_Hi (String_pollute str_bang) = Some r
            \<and> String_valid r \<and> String_text r = [0x21, 0x48, 0x69])"
proof -
  define r where "r = snd (the (String_internalPrepend heap_refusing str_Hi (String_pollute str_bang)))"
  have h1: "String_valid str_Hi" by code_simp
  have h2: "\<not> String_valid (String_pollute str_bang)" by code_simp
  have h3: "String_internalPrepend heap_refusing str_Hi (String_pollute str_bang) = Some (True, r)"
    unfolding r_def by code_simp
  have h5: "String_text r = [0x21, 0x48, 0x69]" unfolding r_def by code_simp
  show ?thesis using h1 h2 h5 prepend_keeps_valid [OF h1 h2 h3] by blast
qed

lemma String_empty_short: "\<not> longBit String_empty" "String_length String_empty = 0"
  "String_valid String_empty" "String_data String_empty = replicate 23 0"
  by (simp_all add: String_empty_def longBit_def last_byte_def String_length_def shortLength_def
      String_valid_def String_data_def)

text \<open>
  C6, amended: a long, owned string of at most \<open>ShortCapacity - NullLength = 22\<close>
  characters (the state after growth to the heap and an erase back down) is returned by
  \<open>shrink()\<close> to the inline representation: \<open>shrink()\<close> returns \<open>true\<close>, the long bit is
  clear, the length is the same, and the \<open>length() + 1\<close> bytes seen through \<open>data()\<close>
  (the characters and the terminator) are the same. A non-empty string also keeps its
  pollute bit.
\<close>

theorem shrink_long_to_short:
  assumes "longBit s" "\<not> wrappedBit s" "String_length s \<le> 22"
    and "nat (String_length s) < length (s_chars s)"
    and "s_chars s ! nat (String_length s) = 0"
  shows "\<exists>r. String_shrink al s = Some (True, r) \<and> \<not> longBit r
             \<and> String_length r = String_length s
             \<and> take (nat (String_length s) + 1) (String_data r)
                 = take (nat (String_length s) + 1) (String_data s)
             \<and> (String_length s \<noteq> 0 \<longrightarrow> String_valid r = String_valid s)"
proof (cases "String_length s = 0")
  case True
  have "String_shrink al s = Some (True, String_empty)"
    using assms(1,2) True by (simp add: String_shrink_def String_wrapped_def)
  moreover have "take 1 (s_chars s) = [0]"
    using assms(4,5) True by (cases "s_chars s") simp_all
  moreover have "take 1 (String_data String_empty) = [0]" by code_simp
  ultimately show ?thesis
    using True assms(1) by (simp add: String_empty_short(1,2,3)) (simp add: String_data_def)
next
  case False
  define n where "n = String_length s"
  define p where "p = (if s_capacity s AND LongBit \<noteq> 0 then ShortPolluteBit else 0)"
  define r where "r = set_last_byte (word_of_int n OR p)
                        (s\<lparr>s_bytes := memcpy (s_bytes s) 0 (s_chars s) (n + NullLength)\<rparr>)"
  have n: "0 \<le> n" "n < 64" "n \<le> 22"
    using String_length_nonneg [of s] assms(3) by (simp_all add: n_def)
  have sh: "String_shrink al s = Some (True, r)"
    using assms(1,2,3) False
    by (simp add: String_shrink_def String_wrapped_def Let_def r_def n_def p_def
        ShortCapacity_def ShortLength_def NullLength_def)
  have pp: "p = 0 \<or> p = ShortPolluteBit" by (simp add: p_def)
  note sb = short_byte_pollute [OF n(1,2) pp]
  have nl: "\<not> longBit r" using sb(1) by (simp add: r_def longBit_iff)
  have len: "String_length r = n" using nl sb(3) by (simp add: String_length_def) (simp add: r_def shortLength_def)
  have "String_valid r \<longleftrightarrow> p = 0" using nl sb(2) by (simp add: String_valid_def) (simp add: r_def)
  moreover have "p = 0 \<longleftrightarrow> String_valid s"
    using assms(1) by (simp add: p_def String_valid_def ShortPolluteBit_def)
  ultimately have val: "String_valid r = String_valid s" by simp
  have "String_data r = memcpy (s_bytes s) 0 (s_chars s) (n + NullLength)"
    using nl by (simp add: String_data_def) (simp add: r_def)
  moreover have "take (nat n + 1) (memcpy (s_bytes s) 0 (s_chars s) (n + NullLength))
                 = take (nat n + 1) (s_chars s)"
    using assms(4) n(1) by (simp add: memcpy_def NullLength_def n_def nat_add_distrib)
  ultimately have "take (nat n + 1) (String_data r) = take (nat n + 1) (String_data s)"
    using assms(1) by (simp add: String_data_def)
  then show ?thesis using sh nl len val by (simp add: n_def)
qed


text \<open>
  The scenario of C6 on concrete strings: \<open>"Hi"\<close> is grown to the heap by appending 30
  characters and erased back to 2 characters; a string of 23 characters is grown by the same
  suffix and erased back to 23 characters.
\<close>

definition str_tail :: String where
  "str_tail = the (String_FromRawBytes heap_granting (replicate 30 0x62) 30)"

definition str_Hi_erased :: String where
  "str_Hi_erased =
     the (String_erase heap_granting (the (String_append heap_granting str_Hi str_tail)) 2 NotFound)"

definition str_23_erased :: String where
  "str_23_erased =
     the (String_erase heap_granting
            (the (String_append heap_granting
                    (the (String_FromRawBytes heap_granting (replicate 23 0x61) 23)) str_tail))
            23 NotFound)"

theorem shrink_long_to_short_witness:
  "longBit str_Hi_erased \<and> \<not> wrappedBit str_Hi_erased \<and> String_length str_Hi_erased = 2
   \<and> take 3 (String_data str_Hi_erased) = [0x48, 0x69, 0]
   \<and> (\<exists>r. String_shrink heap_refusing str_Hi_erased = Some (True, r) \<and> \<not> longBit r
            \<and> String_length r = 2 \<and> take 3 (String_data r) = [0x48, 0x69, 0])"
proof -
  have h1: "longBit str_Hi_erased" by code_simp
  have h2: "\<not> wrappedBit str_Hi_erased" by code_simp
  have h3: "String_length str_Hi_erased = 2" by code_simp
  have h4: "nat (String_length str_Hi_erased) < length (s_chars str_Hi_erased)" by code_simp
  have h5: "s_chars str_Hi_erased ! nat (String_length str_Hi_erased) = 0" by code_simp
  have h6: "take 3 (String_data str_Hi_erased) = [0x48, 0x69, 0]" by code_simp
  have h7: "String_length str_Hi_erased \<le> 22" using h3 by simp
  show ?thesis
    using h1 h2 h3 h6 shrink_long_to_short [OF h1 h2 h7 h4 h5, of heap_refusing]
    by (auto simp: numeral_3_eq_3)
qed

text \<open>
  C6, as stated, has the bound \<open>ShortCapacity = 23\<close>. A string of 23 characters that was
  grown and erased back stays in the long representation: \<open>shrink()\<close> takes the branch
  \<open>reallocate(length + NullLength)\<close>, whether or not the allocation is granted.
\<close>

theorem shrink_at_ShortCapacity_counterexample:
  "String_length str_23_erased = ShortCapacity \<and> longBit str_23_erased
   \<and> \<not> wrappedBit str_23_erased
   \<and> String_shrink heap_granting str_23_erased \<noteq> None
   \<and> String_shrink heap_refusing str_23_erased \<noteq> None
   \<and> fst (the (String_shrink heap_granting str_23_erased))
   \<and> longBit (snd (the (String_shrink heap_granting str_23_erased)))
   \<and> longBit (snd (the (String_shrink heap_refusing str_23_erased)))"
  by code_simp

section \<open>Overflow of append and concatenate\<close>

text \<open>
  An operation whose result would be longer than \<open>MaxLength\<close> asks \<open>internalCapacity\<close> for
  \<open>MaxLength\<close> characters, and \<open>internalCapacity\<close> asks \<open>computeNextCapacity\<close> for
  \<open>MaxLength + NullLength = 2 ^ 63 - 1\<close>. \<open>String::internalCapacity\<close> does not test the range
  of that request the way \<open>Containers::computeCapacity\<close> does, so unless the capacity is
  there already, or is exactly \<open>ShortCapacity\<close>, the request reaches \<open>ceilPowerOfTwo\<close> outside
  its range and does not return.
\<close>

lemma String_internalCapacity_overflow:
  assumes "String_capacity s < String_MaxLength" "String_capacity s \<noteq> ShortCapacity"
  shows "String_internalCapacity al s String_MaxLength = None"
proof -
  have c: "0 \<le> String_capacity s" "String_capacity s < 2 ^ 63 - 1"
    using assms(1) String_capacity_nonneg [of s] by (simp_all add: String_MaxLength_def)
  have m: "String_MaxLength + NullLength = 2 ^ 63 - 1"
    by (simp add: String_MaxLength_def NullLength_def)
  show ?thesis
    using assms computeNextCapacity3_MaxLength [OF c, of ShortCapacity]
    by (simp add: String_internalCapacity_def m)
qed

lemma String_append_overflow:
  assumes "String_MaxLength < String_length A + String_length B"
    and "String_length A < String_MaxLength"
    and "String_capacity A < String_MaxLength" "String_capacity A \<noteq> ShortCapacity"
  shows "String_append al A B = None"
proof -
  have "String_internalAppend al A B = None"
    using assms(1,2) String_internalCapacity_overflow [OF assms(3,4), of al]
    by (simp add: String_internalAppend_def Let_def)
  then show ?thesis by (simp add: String_append_def)
qed


lemma String_plus_overflow:
  assumes "String_MaxLength < String_length A + String_length B"
  shows "String_plus al A B = None"
proof -
  have c: "String_capacity String_empty < String_MaxLength"
    "String_capacity String_empty \<noteq> ShortCapacity"
    by (simp_all add: String_capacity_def String_empty_short(1) ShortCapacity_def ShortLength_def
        NullLength_def String_MaxLength_def)
  have "String_internalConcatenate al String_empty A B = None"
    using assms String_internalCapacity_overflow [OF c, of al]
    by (simp add: String_internalConcatenate_def Let_def)
  then show ?thesis by (simp add: String_plus_def)
qed

text \<open>
  Concrete strings: \<open>String::Wrap\<close> of a null-terminated string of \<open>MaxLength\<close> characters
  \<open>'b'\<close> at an aligned address, the same string polluted, and \<open>String::Wrap\<close> of the 23
  characters \<open>"aaaaaaaaaaaaaaaaaaaaaaa"\<close>, which \<open>Wrap\<close> stores inline.
\<close>

definition str_big :: String where
  "str_big = String_empty\<lparr>s_chars := replicate (nat String_MaxLength) 0x62 @ [0],
                          s_length := word_of_int String_MaxLength OR LongBit\<rparr>"

definition str_wrap23 :: String where
  "str_wrap23 = the (String_Wrap heap_refusing True 23 (replicate 23 0x61 @ [0]) 0)"

lemma str_big_built:
  "String_Wrap al True 0 (replicate (nat String_MaxLength) 0x62 @ [0]) String_MaxLength
   = Some str_big"
  by (simp add: String_Wrap_def str_big_def) (simp add: String_MaxLength_def ShortCapacity_def ShortLength_def)

lemma str_big_facts:
  "longBit str_big" "String_length str_big = String_MaxLength" "String_valid str_big"
  "longBit (String_pollute str_big)" "String_length (String_pollute str_big) = String_MaxLength"
proof -
  show lb: "longBit str_big" by (simp add: str_big_def)
  have "0 \<le> String_MaxLength" "String_MaxLength < 2 ^ 63" by (simp_all add: String_MaxLength_def)
  from word64_of_length(1) [OF this] have ll: "longLength str_big = String_MaxLength"
    by (simp add: longLength_def str_big_def)
  then show "String_length str_big = String_MaxLength" using lb by (simp add: String_length_def)
  show "String_valid str_big" using lb by (simp add: String_valid_def) (simp add: str_big_def String_empty_def)
  show lp: "longBit (String_pollute str_big)" using lb by (simp add: String_pollute_def)
  show "String_length (String_pollute str_big) = String_MaxLength"
    using lp lb ll by (simp add: String_length_def) (simp add: String_pollute_def longLength_def)
qed

lemma str_Hi_facts:
  "String_valid str_Hi" "String_length str_Hi = 2" "String_capacity str_Hi = 22"
  by code_simp+



text \<open>
  C5, at two failing inputs, each with a non-polluted \<open>A\<close> and a polluted \<open>B\<close>.
  \<^item> \<open>A\<close> is the inline string of 23 characters that \<open>String::Wrap\<close> builds and \<open>B\<close> is the
    polluted \<open>"!"\<close>. \<open>A.append(B)\<close> has to move \<open>A\<close> to the heap, the allocation is granted,
    and \<open>reallocate\<close> copies 24 bytes into \<open>char shortContent[23]\<close>: there is no result.
  \<^item> \<open>A\<close> is \<open>"Hi"\<close> and \<open>B\<close> is the polluted wrapped string of \<open>MaxLength\<close> characters.
    Neither \<open>A + B\<close> nor \<open>A.append(B)\<close> returns, whatever the allocator answers.
\<close>

theorem pollute_propagation_no_result:
  "String_valid str_wrap23 \<and> String_length str_wrap23 = 23 \<and> \<not> longBit str_wrap23
   \<and> \<not> String_valid (String_pollute str_bang)
   \<and> String_append heap_granting str_wrap23 (String_pollute str_bang) = None
   \<and> String_valid str_Hi \<and> \<not> String_valid (String_pollute str_big)
   \<and> String_plus al str_Hi (String_pollute str_big) = None
   \<and> String_append al str_Hi (String_pollute str_big) = None"
proof -
  have a: "String_valid str_wrap23" "String_length str_wrap23 = 23" "\<not> longBit str_wrap23"
    "\<not> String_valid (String_pollute str_bang)"
    "String_append heap_granting str_wrap23 (String_pollute str_bang) = None"
    by code_simp+
  have o: "String_MaxLength < String_length str_Hi + String_length (String_pollute str_big)"
    by (simp add: str_Hi_facts(2) str_big_facts(5))
  have c: "String_length str_Hi < String_MaxLength" "String_capacity str_Hi < String_MaxLength"
    "String_capacity str_Hi \<noteq> ShortCapacity"
    by (simp_all add: str_Hi_facts String_MaxLength_def ShortCapacity_def ShortLength_def)
  show ?thesis
    using a str_Hi_facts(1) String_append_overflow [OF o c] String_plus_overflow [OF o]
    by simp
qed

theorem pollute_propagation_no_result_witness:
  "String_append heap_granting str_wrap23 (String_pollute str_bang) = None
   \<and> String_plus heap_granting str_Hi (String_pollute str_big) = None
   \<and> String_append heap_refusing str_Hi (String_pollute str_big) = None"
  using pollute_propagation_no_result [of heap_granting]
    pollute_propagation_no_result [of heap_refusing] by simp

section \<open>TinyTRL\_Containers: FlatMap and FlatSet\<close>

text \<open>
  \<open>Pair<Key, Value>\<close>, and the two containers: an \<open>Array\<close> of pairs (of values) kept next to
  the three-way comparer given to the constructor.
\<close>

record ('k, 'v) Pair =
  p_key :: 'k
  p_value :: 'v

record ('k, 'v) FlatMap =
  m_pairs :: "('k, 'v) Pair Array"
  m_comparer :: "'k \<Rightarrow> 'k \<Rightarrow> int"

record 'v FlatSet =
  fs_values :: "'v Array"
  fs_comparer :: "'v \<Rightarrow> 'v \<Rightarrow> int"

definition FlatMap_empty :: "('k \<Rightarrow> 'k \<Rightarrow> int) \<Rightarrow> ('k, 'v) FlatMap" where
  "FlatMap_empty comparer = \<lparr>m_pairs = Array_empty, m_comparer = comparer\<rparr>"

definition FlatSet_empty :: "('v \<Rightarrow> 'v \<Rightarrow> int) \<Rightarrow> 'v FlatSet" where
  "FlatSet_empty comparer = \<lparr>fs_values = Array_empty, fs_comparer = comparer\<rparr>"

text \<open>
  The loop of \<open>FlatMap::search\<close> and of \<open>FlatSet::search\<close>, the same text in both:
  \<open>probe\<close> is \<open>_comparer(_pairs[pivot].key, key)\<close> (\<open>_comparer(_values[pivot], value)\<close>) as a
  function of the element at \<open>pivot\<close>. The sum \<open>left + right\<close> has no guard and is taken with
  the wrap-around of \<open>int64_t\<close>. The result is the \<open>bool\<close> returned and the \<open>index\<close> written.
\<close>

partial_function (option) search_loop ::
  "('e \<Rightarrow> int) \<Rightarrow> 'e option list \<Rightarrow> int \<Rightarrow> int \<Rightarrow> (bool \<times> int) option" where
  "search_loop probe d left right =
     (if left \<le> right then
        (let pivot = c_div (s64 (left + right)) 2;
             res = probe (the (d ! nat pivot))
         in if res < 0 then search_loop probe d (pivot + 1) right
            else if res > 0 then search_loop probe d left (pivot - 1)
            else Some (True, pivot))
      else Some (False, left))"

declare search_loop.simps [code]

definition FlatMap_search :: "('k, 'v) FlatMap \<Rightarrow> 'k \<Rightarrow> (bool \<times> int) option" where
  "FlatMap_search m k =
     search_loop (\<lambda>p. m_comparer m (p_key p) k) (a_data (m_pairs m))
       0 (Array_length (m_pairs m) - 1)"

definition FlatSet_search :: "'v FlatSet \<Rightarrow> 'v \<Rightarrow> (bool \<times> int) option" where
  "FlatSet_search s v =
     search_loop (\<lambda>x. fs_comparer s x v) (a_data (fs_values s))
       0 (Array_length (fs_values s) - 1)"

text \<open>\<open>FlatMap::add(key, value)\<close>: the index of the \<open>Location\<close> returned, and the map.\<close>

definition FlatMap_add ::
  "allocator \<Rightarrow> ('k, 'v) FlatMap \<Rightarrow> 'k \<Rightarrow> 'v \<Rightarrow> (int \<times> ('k, 'v) FlatMap) option" where
  "FlatMap_add al m k v =
     do { (found, index) \<leftarrow> FlatMap_search m k;
          if found then
            (let a = m_pairs m;
                 p = the (a_data a ! nat index)
             in Some (index, m\<lparr>m_pairs := a\<lparr>a_data := (a_data a)[nat index := Some (p\<lparr>p_value := v\<rparr>)]\<rparr>\<rparr>))
          else
            do { (ok, a1) \<leftarrow> Array_insert al (m_pairs m) index \<lparr>p_key = k, p_value = v\<rparr>;
                 Some (if \<not> ok then NotFound else index, m\<lparr>m_pairs := a1\<rparr>) } }"

text \<open>\<open>FlatMap::erase(Key const&)\<close> and \<open>FlatMap::erase(Location const&)\<close>.\<close>

definition FlatMap_erase :: "('k, 'v) FlatMap \<Rightarrow> 'k \<Rightarrow> (bool \<times> ('k, 'v) FlatMap) option" where
  "FlatMap_erase m k =
     do { (found, index) \<leftarrow> FlatMap_search m k;
          if found then
            (case Array_erase1 (m_pairs m) index of (ok, a1) \<Rightarrow> Some (ok, m\<lparr>m_pairs := a1\<rparr>))
          else Some (False, m) }"

definition FlatMap_erase_at :: "('k, 'v) FlatMap \<Rightarrow> int \<Rightarrow> bool \<times> ('k, 'v) FlatMap" where
  "FlatMap_erase_at m location =
     (if location \<noteq> NotFound then
        (case Array_erase1 (m_pairs m) location of (ok, a1) \<Rightarrow> (ok, m\<lparr>m_pairs := a1\<rparr>))
      else (False, m))"

text \<open>\<open>FlatSet::add\<close>, \<open>FlatSet::update\<close>, \<open>FlatSet::erase(Value const&)\<close> and \<open>FlatSet::erase(Location const&)\<close>.\<close>

definition FlatSet_add :: "allocator \<Rightarrow> 'v FlatSet \<Rightarrow> 'v \<Rightarrow> (int \<times> 'v FlatSet) option" where
  "FlatSet_add al s v =
     do { (found, index) \<leftarrow> FlatSet_search s v;
          if \<not> found then
            do { (ok, a1) \<leftarrow> Array_insert al (fs_values s) index v;
                 Some (if \<not> ok then NotFound else index, s\<lparr>fs_values := a1\<rparr>) }
          else Some (index, s) }"

definition FlatSet_update :: "allocator \<Rightarrow> 'v FlatSet \<Rightarrow> 'v \<Rightarrow> (bool \<times> 'v FlatSet) option" where
  "FlatSet_update al s v =
     do { (found, index) \<leftarrow> FlatSet_search s v;
          if \<not> found then
            do { (ok, a1) \<leftarrow> Array_insert al (fs_values s) index v;
                 Some (ok, s\<lparr>fs_values := a1\<rparr>) }
          else
            (let a = fs_values s
             in Some (True, s\<lparr>fs_values := a\<lparr>a_data := (a_data a)[nat index := Some v]\<rparr>\<rparr>)) }"

definition FlatSet_erase :: "'v FlatSet \<Rightarrow> 'v \<Rightarrow> (bool \<times> 'v FlatSet) option" where
  "FlatSet_erase s v =
     do { (found, index) \<leftarrow> FlatSet_search s v;
          if found then
            (case Array_erase1 (fs_values s) index of (ok, a1) \<Rightarrow> Some (ok, s\<lparr>fs_values := a1\<rparr>))
          else Some (False, s) }"

definition FlatSet_erase_at :: "'v FlatSet \<Rightarrow> int \<Rightarrow> bool \<times> 'v FlatSet" where
  "FlatSet_erase_at s location =
     (case Array_erase1 (fs_values s) location of (ok, a1) \<Rightarrow> (ok, s\<lparr>fs_values := a1\<rparr>))"

text \<open>What iteration from \<open>begin()\<close> to \<open>end()\<close> visits.\<close>

definition FlatMap_keys :: "('k, 'v) FlatMap \<Rightarrow> 'k list" where
  "FlatMap_keys m = map p_key (Array_elements (m_pairs m))"

definition FlatSet_elements :: "'v FlatSet \<Rightarrow> 'v list" where
  "FlatSet_elements s = Array_elements (fs_values s)"

text \<open>
  Sequences of operations. Every operation that may allocate carries the allocator that
  answers it, so that each allocation of a sequence may be granted or refused on its own.
\<close>

datatype ('k, 'v) map_op =
  MapAdd allocator 'k 'v
  | MapErase 'k
  | MapEraseAt int

datatype 'v set_op =
  SetAdd allocator 'v
  | SetUpdate allocator 'v
  | SetErase 'v
  | SetEraseAt int

fun FlatMap_apply :: "('k, 'v) map_op \<Rightarrow> ('k, 'v) FlatMap \<Rightarrow> ('k, 'v) FlatMap option" where
  "FlatMap_apply (MapAdd al k v) m = map_option snd (FlatMap_add al m k v)"
| "FlatMap_apply (MapErase k) m = map_option snd (FlatMap_erase m k)"
| "FlatMap_apply (MapEraseAt location) m = Some (snd (FlatMap_erase_at m location))"

fun FlatSet_apply :: "'v set_op \<Rightarrow> 'v FlatSet \<Rightarrow> 'v FlatSet option" where
  "FlatSet_apply (SetAdd al v) s = map_option snd (FlatSet_add al s v)"
| "FlatSet_apply (SetUpdate al v) s = map_option snd (FlatSet_update al s v)"
| "FlatSet_apply (SetErase v) s = map_option snd (FlatSet_erase s v)"
| "FlatSet_apply (SetEraseAt location) s = Some (snd (FlatSet_erase_at s location))"

fun FlatMap_run :: "('k, 'v) map_op list \<Rightarrow> ('k, 'v) FlatMap \<Rightarrow> ('k, 'v) FlatMap option" where
  "FlatMap_run [] m = Some m"
| "FlatMap_run (operation # rest) m = Option.bind (FlatMap_apply operation m) (FlatMap_run rest)"

fun FlatSet_run :: "'v set_op list \<Rightarrow> 'v FlatSet \<Rightarrow> 'v FlatSet option" where
  "FlatSet_run [] s = Some s"
| "FlatSet_run (operation # rest) s = Option.bind (FlatSet_apply operation s) (FlatSet_run rest)"

text \<open>
  A three-way comparer that is a strict weak ordering: \<open>comparer a b < 0\<close> is a strict
  order, \<open>comparer a b = 0\<close> (neither smaller than the other) is transitive, and the sign of
  the result mirrors when the arguments are exchanged.
\<close>

definition strict_weak_order :: "('k \<Rightarrow> 'k \<Rightarrow> int) \<Rightarrow> bool" where
  "strict_weak_order comparer \<longleftrightarrow>
     (\<forall>a b. comparer a b < 0 \<longleftrightarrow> comparer b a > 0)
     \<and> (\<forall>a b c. comparer a b < 0 \<and> comparer b c < 0 \<longrightarrow> comparer a c < 0)
     \<and> (\<forall>a b c. comparer a b = 0 \<and> comparer b c = 0 \<longrightarrow> comparer a c = 0)"

definition ascending :: "('k \<Rightarrow> 'k \<Rightarrow> int) \<Rightarrow> 'k list \<Rightarrow> bool" where
  "ascending comparer ks \<longleftrightarrow> sorted_wrt (\<lambda>a b. comparer a b < 0) ks"

text \<open>The class invariant of \<open>Array\<close> that the element-level facts need.\<close>

definition Array_wf :: "'e Array \<Rightarrow> bool" where
  "Array_wf a \<longleftrightarrow>
     0 \<le> Array_length a \<and> Array_length a \<le> Array_capacity a
     \<and> nat (Array_capacity a) \<le> length (a_data a)"

text \<open>
  The values of a map in the order of iteration, and the invariant of the two containers:
  the array is well formed, holds at most \<open>n\<close> elements, the comparer is the one given, and
  the keys are in strictly ascending order.
\<close>

definition FlatMap_values :: "('k, 'v) FlatMap \<Rightarrow> 'v list" where
  "FlatMap_values m = map p_value (Array_elements (m_pairs m))"

definition FlatMap_inv :: "('k \<Rightarrow> 'k \<Rightarrow> int) \<Rightarrow> int \<Rightarrow> ('k, 'v) FlatMap \<Rightarrow> bool" where
  "FlatMap_inv cmp n m \<longleftrightarrow>
     m_comparer m = cmp \<and> Array_wf (m_pairs m) \<and> Array_length (m_pairs m) \<le> n
     \<and> ascending cmp (FlatMap_keys m)"

definition FlatSet_inv :: "('v \<Rightarrow> 'v \<Rightarrow> int) \<Rightarrow> int \<Rightarrow> 'v FlatSet \<Rightarrow> bool" where
  "FlatSet_inv cmp n s \<longleftrightarrow>
     fs_comparer s = cmp \<and> Array_wf (fs_values s) \<and> Array_length (fs_values s) \<le> n
     \<and> ascending cmp (FlatSet_elements s)"

text \<open>
  A comparer under which different elements are equivalent (the tens of an integer), and the
  two sequences of operations that the theorems are run on. In both the third operation asks
  for an allocation that is refused.
\<close>

definition by_tens :: "int \<Rightarrow> int \<Rightarrow> int" where
  "by_tens left right = DefaultCompare (left div 10) (right div 10)"

definition map_ops :: "(int, int) map_op list" where
  "map_ops = [MapAdd granting 3 1, MapAdd granting 1 2, MapAdd refusing 7 7, MapAdd granting 2 5,
              MapAdd granting 3 9, MapErase 1, MapAdd granting 0 0, MapEraseAt 5, MapEraseAt 1]"

definition set_ops :: "int set_op list" where
  "set_ops = [SetAdd granting 5, SetAdd granting 3, SetAdd refusing 1, SetUpdate granting 9,
              SetAdd granting 5, SetUpdate granting 4, SetUpdate granting 3, SetErase 7,
              SetAdd granting 7, SetErase 5, SetEraseAt 3, SetEraseAt 9]"

section \<open>Facts about the loops of Array\<close>

declare shift_right.simps [simp del] relocate.simps [simp del] shift_left.simps [simp del]

lemma shift_right_length [simp]: "length (shift_right d index i) = length d"
  by (induction d index i rule: shift_right.induct) (subst shift_right.simps, simp)

lemma relocate_length [simp]: "length (relocate src dst off i hi) = length dst"
  by (induction src dst off i hi rule: relocate.induct) (subst relocate.simps, simp)

lemma shift_left_length [simp]: "length (shift_left d c i hi) = length d"
  by (induction d c i hi rule: shift_left.induct) (subst shift_left.simps, simp)

lemma shift_right_nth:
  assumes "0 \<le> index" "index \<le> i" "nat i < length d" "j < length d"
  shows "shift_right d index i ! j
         = (if nat index < j \<and> j \<le> nat i then d ! (j - 1)
            else if j = nat index \<and> index < i then None else d ! j)"
  using assms
proof (induction d index i rule: shift_right.induct)
  case (1 d index i)
  show ?case
  proof (cases "i > index")
    case False
    then show ?thesis using 1(3) by (subst shift_right.simps) auto
  next
    case True
    define n where "n = nat i"
    define k where "k = nat index"
    have n: "nat (i - 1) = n - 1" "0 < n" "k < n" "nat index = k" "nat i = n"
      using True 1(2) by (simp_all add: n_def k_def nat_diff_distrib)
    have ik: "index < i - 1 \<longleftrightarrow> k < n - 1" using True 1(2) by (auto simp: n_def k_def)
    let ?d = "(d[nat i := d ! nat (i - 1)])[nat (i - 1) := None]"
    have ih: "shift_right ?d index (i - 1) ! j
              = (if nat index < j \<and> j \<le> nat (i - 1) then ?d ! (j - 1)
                 else if j = nat index \<and> index < i - 1 then None else ?d ! j)"
      using True 1(2,4,5) by (intro 1(1)) auto
    have "shift_right d index i = shift_right ?d index (i - 1)"
      using True by (subst shift_right.simps) simp
    then have "shift_right d index i ! j
               = (if nat index < j \<and> j \<le> nat (i - 1) then ?d ! (j - 1)
                  else if j = nat index \<and> index < i - 1 then None else ?d ! j)"
      by (simp only: ih)
    also have "\<dots> = (if nat index < j \<and> j \<le> nat i then d ! (j - 1)
                      else if j = nat index \<and> index < i then None else d ! j)"
    proof -
      have l: "n < length d" "j < length d" using 1(4,5) by (simp_all add: n_def)
      show ?thesis
        unfolding n ik using True l n(2,3)
        by (cases "j = n"; cases "j = n - 1"; cases "j = k") (auto simp: nth_list_update)
    qed
    finally show ?thesis .
  qed
qed

lemma relocate_nth:
  assumes "0 \<le> i" "0 \<le> off" "j < length dst"
  shows "relocate src dst off i hi ! j
         = (if nat (i + off) \<le> j \<and> j < nat (hi + off) then src ! (j - nat off) else dst ! j)"
  using assms
proof (induction src dst off i hi rule: relocate.induct)
  case (1 src dst off i hi)
  show ?case
  proof (cases "i < hi")
    case False
    then show ?thesis using 1(2,3) by (subst relocate.simps) auto
  next
    case True
    let ?d = "dst[nat (i + off) := src ! nat i]"
    have ih: "relocate src ?d off (i + 1) hi ! j
              = (if nat (i + 1 + off) \<le> j \<and> j < nat (hi + off) then src ! (j - nat off) else ?d ! j)"
      using True 1(2,3,4) by (intro 1(1)) auto
    have e: "nat (i + off) - nat off = nat i" using 1(2,3) by (simp add: nat_add_distrib)
    have "relocate src dst off i hi = relocate src ?d off (i + 1) hi"
      using True by (subst relocate.simps) simp
    then have "relocate src dst off i hi ! j
               = (if nat (i + 1 + off) \<le> j \<and> j < nat (hi + off) then src ! (j - nat off)
                  else ?d ! j)"
      by (simp only: ih)
    also have "\<dots> = (if nat (i + off) \<le> j \<and> j < nat (hi + off) then src ! (j - nat off)
                      else dst ! j)"
    proof (cases "j = nat (i + off)")
      case True
      then show ?thesis using \<open>i < hi\<close> 1(2,3,4) e by (simp add: nat_add_distrib)
    next
      case False
      then show ?thesis using \<open>i < hi\<close> 1(2,3,4) by (auto simp: nat_add_distrib)
    qed
    finally show ?thesis .
  qed
qed

lemma shift_left_nth:
  assumes "0 \<le> i" "i \<le> hi" "nat hi < length d" "j < length d"
  shows "shift_left d 1 i hi ! j
         = (if nat i \<le> j \<and> j < nat hi then d ! (j + 1)
            else if j = nat hi \<and> i < hi then None else d ! j)"
  using assms
proof (induction d "1 :: int" i hi rule: shift_left.induct)
  case (1 d i hi)
  show ?case
  proof (cases "i < hi")
    case False
    then show ?thesis using 1(3) by (subst shift_left.simps) auto
  next
    case True
    let ?d = "(d[nat i := d ! nat (i + 1)])[nat (i + 1) := None]"
    have ih: "shift_left ?d 1 (i + 1) hi ! j
              = (if nat (i + 1) \<le> j \<and> j < nat hi then ?d ! (j + 1)
                 else if j = nat hi \<and> i + 1 < hi then None else ?d ! j)"
      using True 1(2,4,5) by (intro 1(1)) auto
    have "shift_left d 1 i hi = shift_left ?d 1 (i + 1) hi"
      using True by (subst shift_left.simps) simp
    then have "shift_left d 1 i hi ! j
               = (if nat (i + 1) \<le> j \<and> j < nat hi then ?d ! (j + 1)
                  else if j = nat hi \<and> i + 1 < hi then None else ?d ! j)"
      by (simp only: ih)
    also have "\<dots> = (if nat i \<le> j \<and> j < nat hi then d ! (j + 1)
                      else if j = nat hi \<and> i < hi then None else d ! j)"
    proof -
      define a where "a = nat i"
      define h where "h = nat hi"
      have c: "nat (i + 1) = a + 1" "nat i = a" "nat hi = h" "a < h" "i + 1 < hi \<longleftrightarrow> a + 1 < h"
        using True 1(2) by (auto simp: a_def h_def nat_add_distrib)
      have l: "h < length d" "j < length d" using 1(4,5) by (simp_all add: h_def)
      show ?thesis
        unfolding c using True l c(4)
        by (cases "j = a"; cases "j = a + 1"; cases "j = h") (auto simp: nth_list_update)
    qed
    finally show ?thesis .
  qed
qed

section \<open>Facts about insert, erase and assignment of Array\<close>

lemma PolluteBit_LongBit: "PolluteBit = LongBit" "LengthMask = LongLengthMask"
  by (simp_all add: PolluteBit_def LongBit_def LengthMask_def LongLengthMask_def)

lemma Array_length_written:
  assumes "- (2 ^ 63) \<le> n" "n < 2 ^ 63"
  shows "Array_length (a\<lparr>a_data := d, a_length := word_of_int n\<rparr>) = n"
    and "Array_length (a\<lparr>a_data := d, a_capacity := c, a_length := word_of_int n\<rparr>) = n"
  using assms by (simp_all add: Array_length_def sint_sbintrunc' signed_take_bit_int_eq_self)

lemma Array_capacity_written:
  assumes "0 \<le> c" "c < 2 ^ 63"
  shows "sint ((word_of_int c OR (w AND PolluteBit)) AND LengthMask :: 64 word) = c"
  using word64_of_length(2) [OF assms, of w] by (simp add: PolluteBit_LongBit)

lemma saturate_id: "lo \<le> v \<Longrightarrow> v \<le> hi \<Longrightarrow> saturate v lo hi = v"
  by (auto simp: saturate_def Let_def)

lemma floorPowerOfTwo_MaxLength: "floorPowerOfTwo MaxLength = Some (2 ^ 62)"
  using clearLowestBits_exact [of 62 "2 ^ 63 - 1"] by (simp add: floorPowerOfTwo_def MaxLength_def)

lemma computeCapacity_range:
  assumes "0 \<le> cur" "cur < target" "target \<le> 2 ^ 62"
  shows "\<exists>c. computeCapacity target cur = Some c \<and> target \<le> c \<and> c < 2 ^ 63"
proof (cases "target < 2 ^ 62")
  case True
  then show ?thesis
    using computeNextCapacity3_range [OF assms, of 0]
    by (simp add: computeCapacity_def floorPowerOfTwo_MaxLength)
next
  case False
  then show ?thesis using assms(3) by (simp add: computeCapacity_def floorPowerOfTwo_MaxLength)
qed

lemma Array_elements_nth:
  "j < nat (Array_length a) \<Longrightarrow> nat (Array_length a) \<le> length (a_data a)
   \<Longrightarrow> Array_elements a ! j = the (a_data a ! j)"
  by (simp add: Array_elements_def)

lemma Array_elements_length:
  "nat (Array_length a) \<le> length (a_data a) \<Longrightarrow> length (Array_elements a) = nat (Array_length a)"
  by (simp add: Array_elements_def)

lemma Array_wf_bounds:
  assumes "Array_wf a"
  shows "0 \<le> Array_length a" "nat (Array_length a) \<le> length (a_data a)"
    "length (Array_elements a) = nat (Array_length a)" "0 \<le> Array_capacity a"
  using assms by (auto simp: Array_wf_def Array_elements_def)

lemma Array_insert_elements:
  assumes wf: "Array_wf a" and lt: "Array_length a < 2 ^ 62"
    and ix: "0 \<le> index" "index \<le> Array_length a"
  shows "\<exists>ok a1. Array_insert al a index e = Some (ok, a1)
           \<and> (if ok then Array_wf a1 \<and> Array_length a1 = Array_length a + 1
                 \<and> Array_elements a1
                     = take (nat index) (Array_elements a) @ e # drop (nat index) (Array_elements a)
               else a1 = a)"
proof -
  define len where "len = Array_length a"
  define cap where "cap = Array_capacity a"
  define d where "d = a_data a"
  define xs where "xs = Array_elements a"
  define k where "k = nat index"
  define n where "n = nat len"
  note b = Array_wf_bounds [OF wf, folded len_def d_def xs_def cap_def]
  have c: "len \<le> cap" "nat cap \<le> length d" using wf by (simp_all add: Array_wf_def len_def cap_def d_def)
  have kn: "k \<le> n" "nat (len + 1) = n + 1" "nat index = k" "nat len = n"
    using ix b(1) by (simp_all add: k_def n_def len_def nat_add_distrib nat_le_eq_zle)
  have xs: "\<And>j. j < n \<Longrightarrow> xs ! j = the (d ! j)" "length xs = n"
    using b(2,3) by (simp_all add: xs_def d_def n_def len_def Array_elements_def)
  have ml: "len < MaxLength" using lt by (simp add: len_def MaxLength_def)
  have sat: "saturate index 0 len = index" using ix by (intro saturate_id) (simp_all add: len_def)
  have target: "\<And>d'. length d' \<ge> n + 1 \<Longrightarrow>
      (\<And>j. j < n + 1 \<Longrightarrow> d' ! j = (if j < k then d ! j else if j = k then Some e else d ! (j - 1)))
      \<Longrightarrow> map the (take (n + 1) d') = take k xs @ e # drop k xs"
  proof -
    fix d' :: "'a option list"
    assume l: "length d' \<ge> n + 1"
      and nth: "\<And>j. j < n + 1 \<Longrightarrow> d' ! j = (if j < k then d ! j else if j = k then Some e else d ! (j - 1))"
    show "map the (take (n + 1) d') = take k xs @ e # drop k xs"
    proof (rule nth_equalityI)
      show "length (map the (take (n + 1) d')) = length (take k xs @ e # drop k xs)"
        using l kn(1) xs(2) by simp
    next
      fix j assume "j < length (map the (take (n + 1) d'))"
      then have j: "j < n + 1" using l by simp
      show "map the (take (n + 1) d') ! j = (take k xs @ e # drop k xs) ! j"
      proof (cases "j < k")
        case True
        then show ?thesis using j l kn(1) xs nth [OF j] by (simp add: nth_append)
      next
        case False
        show ?thesis
        proof (cases "j = k")
          case True
          then show ?thesis using j l kn(1) xs(2) nth [OF j] by (simp add: nth_append)
        next
          case ne: False
          with False have "k < j" by simp
          then obtain i where i: "j - k = Suc i" "k + i = j - 1"
            by (cases "j - k") auto
          then have "(take k xs @ e # drop k xs) ! j = xs ! (j - 1)"
            using kn(1) xs(2) j \<open>k < j\<close> by (simp add: nth_append min_def)
          then show ?thesis using j l \<open>k < j\<close> ne xs(1) [of "j - 1"] nth [OF j] by simp
        qed
      qed
    qed
  qed
  show ?thesis
  proof (cases "len + 1 \<le> cap")
    case True
    define d' where "d' = (shift_right d index len)[nat index := Some e]"
    define a1 where "a1 = a\<lparr>a_data := d', a_length := word_of_int (len + 1)\<rparr>"
    have ins: "Array_insert al a index e = Some (True, a1)"
      using ml sat True
      by (simp add: Array_insert_def Let_def len_def [symmetric] cap_def [symmetric]
          d_def [symmetric] a1_def d'_def)
    have nl: "nat len < length d" using True c(2) b(1) by simp
    have l1: "Array_length a1 = len + 1"
      unfolding a1_def using b(1) lt [folded len_def] by (intro Array_length_written) simp_all
    have c1: "Array_capacity a1 = cap" by (simp add: a1_def Array_capacity_def cap_def)
    have ld: "length d' = length d" by (simp add: d'_def)
    have wf1: "Array_wf a1"
      using True c(2) b(1) ld by (simp add: Array_wf_def l1 c1) (simp add: a1_def)
    have nth: "d' ! j = (if j < k then d ! j else if j = k then Some e else d ! (j - 1))"
      if "j < n + 1" for j
    proof -
      have jl: "j < length d" using that nl kn(4) by simp
      have "k < length d" using kn(1) nl kn(4) by simp
      then show ?thesis
        using that shift_right_nth [OF ix(1) ix(2) [folded len_def] nl jl]
        by (auto simp: d'_def kn nth_list_update)
    qed
    have "Array_elements a1 = map the (take (n + 1) d')"
      by (simp add: Array_elements_def l1 kn) (simp add: a1_def)
    also have "\<dots> = take k xs @ e # drop k xs"
      using nth nl kn(4) ld by (intro target) simp_all
    finally show ?thesis using ins wf1 l1 by (auto simp: xs_def k_def len_def)
  next
    case False
    then have "cap < len + 1" "len + 1 \<le> 2 ^ 62" using lt by (simp_all add: len_def)
    then obtain nc where nc: "computeCapacity (len + 1) cap = Some nc" "len + 1 \<le> nc" "nc < 2 ^ 63"
      using computeCapacity_range [OF b(4)] by blast
    show ?thesis
    proof (cases "al nc")
      case no: False
      then have "Array_insert al a index e = Some (False, a)"
        using ml sat False nc(1)
        by (simp add: Array_insert_def Let_def len_def [symmetric] cap_def [symmetric])
      then show ?thesis by auto
    next
      case yes: True
      define d0 where "d0 = (replicate (nat nc) None :: 'a option list)"
      define d1 where "d1 = relocate d d0 0 0 index"
      define d2 where "d2 = d1[nat index := Some e]"
      define d3 where "d3 = relocate d d2 1 index len"
      define a1 where "a1 = a\<lparr>a_data := d3,
                             a_capacity := word_of_int nc OR (a_capacity a AND PolluteBit),
                             a_length := word_of_int (len + 1)\<rparr>"
      have ins: "Array_insert al a index e = Some (True, a1)"
        using ml sat False nc(1) yes
        by (simp add: Array_insert_def Let_def len_def [symmetric] cap_def [symmetric]
            d_def [symmetric] a1_def d3_def d2_def d1_def d0_def)
      have ld: "length d3 = nat nc" by (simp add: d3_def d2_def d1_def d0_def)
      have nn: "n + 1 \<le> nat nc" using nc(2) b(1) kn(2) by simp
      have l1: "Array_length a1 = len + 1"
        unfolding a1_def using b(1) lt [folded len_def] by (intro Array_length_written) simp_all
      have c1: "Array_capacity a1 = nc"
        using Array_capacity_written [of nc] nc(2,3) b(1)
        by (simp add: a1_def Array_capacity_def)
      have wf1: "Array_wf a1"
        using nc(2) b(1) ld by (simp add: Array_wf_def l1 c1) (simp add: a1_def)
      have nth: "d3 ! j = (if j < k then d ! j else if j = k then Some e else d ! (j - 1))"
        if "j < n + 1" for j
      proof -
        have jl: "j < nat nc" using that nn by simp
        have j0: "j < length d0" "j < length d1" "j < length d2"
          using jl by (simp_all add: d0_def d1_def d2_def)
        have e1: "d1 ! j = (if j < k then d ! j else None)"
          using relocate_nth [of 0 0 j d0 d index] j0(1) ix(1)
          by (simp add: d1_def kn) (simp add: d0_def jl)
        have e2: "d2 ! j = (if j < k then d ! j else if j = k then Some e else None)"
          using e1 j0(2) by (simp add: d2_def kn nth_list_update)
        have "d3 ! j = (if k + 1 \<le> j \<and> j < n + 1 then d ! (j - 1) else d2 ! j)"
          using relocate_nth [of index 1 j d2 d len] j0(3) ix(1) b(1)
          by (simp add: d3_def kn nat_add_distrib)
        then show ?thesis using e2 that by auto
      qed
      have "Array_elements a1 = map the (take (n + 1) d3)"
        by (simp add: Array_elements_def l1 kn) (simp add: a1_def)
      also have "\<dots> = take k xs @ e # drop k xs"
        using nth nn ld by (intro target) simp_all
      finally show ?thesis using ins wf1 l1 by (auto simp: xs_def k_def len_def)
    qed
  qed
qed

lemma Array_erase1_elements:
  assumes wf: "Array_wf a" and lt: "Array_length a < 2 ^ 63"
  shows "\<exists>ok a1. Array_erase1 a index = (ok, a1)
           \<and> (if ok then 0 \<le> index \<and> index < Array_length a \<and> Array_wf a1
                 \<and> Array_length a1 = Array_length a - 1
                 \<and> Array_elements a1
                     = take (nat index) (Array_elements a) @ drop (nat index + 1) (Array_elements a)
               else a1 = a)"
proof (cases "0 \<le> index \<and> index < Array_length a")
  case False
  then have "Array_erase1 a index = (False, a)" by (auto simp: Array_erase1_def)
  then show ?thesis by auto
next
  case True
  define len where "len = Array_length a"
  define d where "d = a_data a"
  define xs where "xs = Array_elements a"
  define k where "k = nat index"
  define n where "n = nat len"
  note b = Array_wf_bounds [OF wf, folded len_def d_def xs_def]
  have c: "len \<le> Array_capacity a" "nat (Array_capacity a) \<le> length d"
    using wf by (simp_all add: Array_wf_def len_def d_def)
  have ix: "0 \<le> index" "index < len" using True by (simp_all add: len_def)
  have kn: "k < n" "nat (len - 1) = n - 1" "nat index = k" "nat len = n" "n \<le> length d"
    using ix b(2) by (simp_all add: k_def n_def nat_diff_distrib)
  have xs: "\<And>j. j < n \<Longrightarrow> xs ! j = the (d ! j)" "length xs = n"
    using b(2,3) by (simp_all add: xs_def d_def n_def len_def Array_elements_def)
  define d' where "d' = shift_left (d[nat index := None]) 1 index (len - 1)"
  define a1 where "a1 = a\<lparr>a_data := d', a_length := word_of_int (len - 1)\<rparr>"
  have er: "Array_erase1 a index = (True, a1)"
    using True by (simp add: Array_erase1_def Let_def len_def [symmetric] d_def [symmetric]
        a1_def d'_def)
  have l1: "Array_length a1 = len - 1"
    unfolding a1_def using ix lt [folded len_def] by (intro Array_length_written) simp_all
  have c1: "Array_capacity a1 = Array_capacity a" by (simp add: a1_def Array_capacity_def)
  have ld: "length d' = length d" by (simp add: d'_def)
  have wf1: "Array_wf a1"
    using c ix ld by (simp add: Array_wf_def l1 c1) (simp add: a1_def)
  have nth: "d' ! j = (if j < k then d ! j else d ! (j + 1))" if "j < n - 1" for j
  proof -
    have jl: "j < length (d[nat index := None])" "nat (len - 1) < length (d[nat index := None])"
      using that kn by simp_all
    have "index \<le> len - 1" using ix by simp
    from shift_left_nth [OF ix(1) this jl(2) jl(1)] show ?thesis
      using that kn(1) by (auto simp: d'_def kn nth_list_update)
  qed
  have "Array_elements a1 = map the (take (n - 1) d')"
    by (simp add: Array_elements_def l1 kn) (simp add: a1_def)
  also have "\<dots> = take k xs @ drop (k + 1) xs"
  proof (rule nth_equalityI)
    show "length (map the (take (n - 1) d')) = length (take k xs @ drop (k + 1) xs)"
      using kn xs(2) ld by simp
  next
    fix j assume "j < length (map the (take (n - 1) d'))"
    then have j: "j < n - 1" using kn ld by simp
    show "map the (take (n - 1) d') ! j = (take k xs @ drop (k + 1) xs) ! j"
    proof (cases "j < k")
      case True
      then show ?thesis using j kn xs ld nth [OF j] by (simp add: nth_append)
    next
      case False
      then have "(take k xs @ drop (k + 1) xs) ! j = xs ! (j + 1)"
        using kn(1) xs(2) j by (simp add: nth_append min_def)
      then show ?thesis using False j kn xs(1) [of "j + 1"] ld nth [OF j] by simp
    qed
  qed
  finally show ?thesis using er wf1 l1 True by (auto simp: xs_def k_def len_def)
qed

lemma Array_assign_elements:
  assumes wf: "Array_wf a" and ix: "0 \<le> index" "index < Array_length a"
  shows "Array_wf (a\<lparr>a_data := (a_data a)[nat index := Some e]\<rparr>)"
    and "Array_length (a\<lparr>a_data := (a_data a)[nat index := Some e]\<rparr>) = Array_length a"
    and "Array_elements (a\<lparr>a_data := (a_data a)[nat index := Some e]\<rparr>)
         = (Array_elements a)[nat index := e]"
proof -
  let ?a = "a\<lparr>a_data := (a_data a)[nat index := Some e]\<rparr>"
  show l: "Array_length ?a = Array_length a" by (simp add: Array_length_def)
  show "Array_wf ?a" using wf by (simp add: Array_wf_def l) (simp add: Array_capacity_def)
  have "nat index < nat (Array_length a)" using ix by simp
  then show "Array_elements ?a = (Array_elements a)[nat index := e]"
    by (simp add: Array_elements_def l take_update_swap map_update)
qed

section \<open>Sorted lists and the binary search\<close>

lemma swo_facts:
  assumes "strict_weak_order cmp"
  shows "cmp a b < 0 \<longleftrightarrow> cmp b a > 0"
    and "cmp a b < 0 \<Longrightarrow> cmp b c < 0 \<Longrightarrow> cmp a c < 0"
    and "cmp a b = 0 \<Longrightarrow> cmp b c = 0 \<Longrightarrow> cmp a c = 0"
    and "cmp a b = 0 \<Longrightarrow> cmp b a = 0"
  using assms unfolding strict_weak_order_def
  by (blast, blast, blast, metis less_irrefl linorder_neqE_linordered_idom)

lemma swo_lt_eq:
  assumes "strict_weak_order cmp" "cmp a b < 0" "cmp b c = 0"
  shows "cmp a c < 0"
proof (rule ccontr)
  assume n: "\<not> cmp a c < 0"
  show False
  proof (cases "cmp a c = 0")
    case True
    have "cmp c b = 0" using assms(1,3) by (rule swo_facts(4))
    with True have "cmp a b = 0" using swo_facts(3) [OF assms(1)] by blast
    with assms(2) show False by simp
  next
    case False
    with n have "cmp a c > 0" by simp
    then have "cmp c a < 0" using swo_facts(1) [OF assms(1)] by blast
    with assms(2) have "cmp c b < 0" using swo_facts(2) [OF assms(1)] by blast
    then have "cmp b c > 0" using swo_facts(1) [OF assms(1)] by blast
    with assms(3) show False by simp
  qed
qed

lemma swo_eq_lt:
  assumes "strict_weak_order cmp" "cmp a b = 0" "cmp b c < 0"
  shows "cmp a c < 0"
proof (rule ccontr)
  assume n: "\<not> cmp a c < 0"
  show False
  proof (cases "cmp a c = 0")
    case True
    have "cmp b a = 0" using assms(1,2) by (rule swo_facts(4))
    with True have "cmp b c = 0" using swo_facts(3) [OF assms(1)] by blast
    with assms(3) show False by simp
  next
    case False
    with n have "cmp a c > 0" by simp
    then have "cmp c a < 0" using swo_facts(1) [OF assms(1)] by blast
    with assms(3) have "cmp b a < 0" using swo_facts(2) [OF assms(1)] by blast
    then have "cmp a b > 0" using swo_facts(1) [OF assms(1)] by blast
    with assms(2) show False by simp
  qed
qed

lemma ascending_nth:
  "ascending cmp ks \<longleftrightarrow> (\<forall>i j. i < j \<longrightarrow> j < length ks \<longrightarrow> cmp (ks ! i) (ks ! j) < 0)"
  by (simp add: ascending_def sorted_wrt_iff_nth_less)

lemma pivot_in_range:
  assumes "0 \<le> left" "left \<le> right" "right < 2 ^ 62"
  shows "c_div (s64 (left + right)) 2 = (left + right) div 2"
    and "left \<le> (left + right) div 2" "(left + right) div 2 \<le> right"
proof -
  have "s64 (left + right) = left + right" using assms by (intro s64_id) simp_all
  then show "c_div (s64 (left + right)) 2 = (left + right) div 2" using assms by simp
  show "left \<le> (left + right) div 2" "(left + right) div 2 \<le> right" using assms by simp_all
qed

lemma search_loop_sorted:
  assumes swo: "strict_weak_order cmp" and asc: "ascending cmp ks"
    and n: "int (length ks) < 2 ^ 62"
    and probe: "\<And>j. j < length ks \<Longrightarrow> probe (the (d ! j)) = cmp (ks ! j) k"
    and range: "0 \<le> left" "left \<le> right + 1" "right < int (length ks)"
    and lo: "\<And>j. j < nat left \<Longrightarrow> cmp (ks ! j) k < 0"
    and hi: "\<And>j. right < int j \<Longrightarrow> j < length ks \<Longrightarrow> cmp (ks ! j) k > 0"
  shows "\<exists>found p. search_loop probe d left right = Some (found, p) \<and> 0 \<le> p
           \<and> (if found then p < int (length ks) \<and> cmp (ks ! nat p) k = 0
               else p \<le> int (length ks) \<and> (\<forall>j < nat p. cmp (ks ! j) k < 0)
                    \<and> (\<forall>j. nat p \<le> j \<and> j < length ks \<longrightarrow> cmp (ks ! j) k > 0))"
  using range lo hi
proof (induction "nat (right + 1 - left)" arbitrary: left right rule: less_induct)
  case less
  show ?case
  proof (cases "left \<le> right")
    case False
    then have "search_loop probe d left right = Some (False, left)"
      by (subst search_loop.simps) simp
    moreover have "left = right + 1" using False less.prems(2) by simp
    moreover have "\<forall>j. nat left \<le> j \<and> j < length ks \<longrightarrow> cmp (ks ! j) k > 0"
      using less.prems(5) \<open>left = right + 1\<close> less.prems(1) by auto
    ultimately show ?thesis using less.prems(1,3,4) by auto
  next
    case True
    define pivot where "pivot = (left + right) div 2"
    have r62: "right < 2 ^ 62" using less.prems(3) n by simp
    note pv = pivot_in_range [OF less.prems(1) True r62, folded pivot_def]
    have pl: "nat pivot < length ks" "0 \<le> pivot" using pv(3) less.prems(1,3) pv(2) by simp_all
    define res where "res = cmp (ks ! nat pivot) k"
    have pr: "probe (the (d ! nat pivot)) = res" using probe [OF pl(1)] by (simp add: res_def)
    have unf: "search_loop probe d left right
               = (if res < 0 then search_loop probe d (pivot + 1) right
                  else if res > 0 then search_loop probe d left (pivot - 1)
                  else Some (True, pivot))"
      using True by (subst search_loop.simps) (simp add: Let_def pv(1) pr)
    show ?thesis
    proof (cases "res < 0")
      case neg: True
      have lo': "cmp (ks ! j) k < 0" if "j < nat (pivot + 1)" for j
      proof (cases "j = nat pivot")
        case True
        then show ?thesis using neg by (simp add: res_def)
      next
        case False
        then have "j < nat pivot" using that pl(2) by simp
        then have "cmp (ks ! j) (ks ! nat pivot) < 0"
          using asc pl(1) by (simp add: ascending_nth)
        then show ?thesis
          using neg swo_facts(2) [OF swo, of "ks ! j" "ks ! nat pivot" k] by (simp add: res_def)
      qed
      have "\<exists>found p. search_loop probe d (pivot + 1) right = Some (found, p) \<and> 0 \<le> p
           \<and> (if found then p < int (length ks) \<and> cmp (ks ! nat p) k = 0
               else p \<le> int (length ks) \<and> (\<forall>j < nat p. cmp (ks ! j) k < 0)
                    \<and> (\<forall>j. nat p \<le> j \<and> j < length ks \<longrightarrow> cmp (ks ! j) k > 0))"
        using pv(2,3) pl(2) less.prems(3) lo' less.prems(5)
        by (intro less.hyps) simp_all
      then show ?thesis using neg by (simp only: unf if_True)
    next
      case nn: False
      show ?thesis
      proof (cases "res > 0")
        case pos: True
        have hi': "cmp (ks ! j) k > 0" if "pivot - 1 < int j" "j < length ks" for j
        proof (cases "j = nat pivot")
          case True
          then show ?thesis using pos by (simp add: res_def)
        next
          case False
          then have "nat pivot < j" using that(1) pl(2) by simp
          then have "cmp (ks ! nat pivot) (ks ! j) < 0"
            using asc that(2) by (simp add: ascending_nth)
          moreover have "cmp k (ks ! nat pivot) < 0"
            using pos swo_facts(1) [OF swo, of k "ks ! nat pivot"] by (simp add: res_def)
          ultimately have "cmp k (ks ! j) < 0" using swo_facts(2) [OF swo] by blast
          then show ?thesis using swo_facts(1) [OF swo, of k "ks ! j"] by simp
        qed
        have "\<exists>found p. search_loop probe d left (pivot - 1) = Some (found, p) \<and> 0 \<le> p
           \<and> (if found then p < int (length ks) \<and> cmp (ks ! nat p) k = 0
               else p \<le> int (length ks) \<and> (\<forall>j < nat p. cmp (ks ! j) k < 0)
                    \<and> (\<forall>j. nat p \<le> j \<and> j < length ks \<longrightarrow> cmp (ks ! j) k > 0))"
          using pv(2,3) pl(2) less.prems(1,3,4) hi'
          by (intro less.hyps) simp_all
        then show ?thesis using nn pos by (simp only: unf if_True if_False)
      next
        case False
        with nn have z: "res = 0" by simp
        then have "search_loop probe d left right = Some (True, pivot)"
          by (simp add: unf)
        then show ?thesis using z pl pv(3) less.prems(3) by (auto simp: res_def)
      qed
    qed
  qed
qed

lemma search_loop_whole:
  assumes "strict_weak_order cmp" "ascending cmp ks" "int (length ks) < 2 ^ 62"
    and "\<And>j. j < length ks \<Longrightarrow> probe (the (d ! j)) = cmp (ks ! j) k"
  shows "\<exists>found p. search_loop probe d 0 (int (length ks) - 1) = Some (found, p) \<and> 0 \<le> p
           \<and> (if found then p < int (length ks) \<and> cmp (ks ! nat p) k = 0
               else p \<le> int (length ks) \<and> (\<forall>j < nat p. cmp (ks ! j) k < 0)
                    \<and> (\<forall>j. nat p \<le> j \<and> j < length ks \<longrightarrow> cmp (ks ! j) k > 0))"
  using assms by (intro search_loop_sorted) simp_all

lemma ascending_insert:
  assumes swo: "strict_weak_order cmp" and asc: "ascending cmp ks" and p: "p \<le> length ks"
    and lo: "\<forall>j < p. cmp (ks ! j) k < 0"
    and hi: "\<forall>j. p \<le> j \<and> j < length ks \<longrightarrow> cmp (ks ! j) k > 0"
  shows "ascending cmp (take p ks @ k # drop p ks)"
proof -
  let ?P = "\<lambda>a b. cmp a b < 0"
  have s: "sorted_wrt ?P (take p ks @ drop p ks)" using asc by (simp add: ascending_def)
  have a: "\<forall>x \<in> set (take p ks). cmp x k < 0"
    using lo p by (auto simp: in_set_conv_nth)
  have b: "\<forall>y \<in> set (drop p ks). cmp k y < 0"
  proof
    fix y assume "y \<in> set (drop p ks)"
    then obtain i where "i < length ks - p" "y = ks ! (p + i)"
      by (auto simp: in_set_conv_nth)
    then have "cmp y k > 0" using hi by simp
    then show "cmp k y < 0" using swo_facts(1) [OF swo, of k y] by simp
  qed
  show ?thesis
    using s a b unfolding ascending_def sorted_wrt_append by auto
qed

lemma ascending_erase:
  assumes "ascending cmp ks"
  shows "ascending cmp (take p ks @ drop (p + 1) ks)"
proof -
  let ?P = "\<lambda>a b. cmp a b < 0"
  have s: "sorted_wrt ?P (take p ks @ drop p ks)" using assms by (simp add: ascending_def)
  have "drop (p + 1) ks = drop 1 (drop p ks)" by (simp add: add.commute)
  moreover have "sorted_wrt ?P (drop p ks)" using s by (simp add: sorted_wrt_append)
  then have "sorted_wrt ?P (drop 1 (drop p ks))" by (rule sorted_wrt_drop)
  moreover have "set (drop 1 (drop p ks)) \<subseteq> set (drop p ks)" by (rule set_drop_subset)
  ultimately show ?thesis
    using s unfolding ascending_def sorted_wrt_append by auto
qed

lemma ascending_replace:
  assumes swo: "strict_weak_order cmp" and asc: "ascending cmp ks" and p: "p < length ks"
    and eq: "cmp (ks ! p) k = 0"
  shows "ascending cmp (ks[p := k])"
  unfolding ascending_nth
proof (intro allI impI)
  fix i j assume ij: "i < j" "j < length (ks[p := k])"
  then have l: "i < length ks" "j < length ks" by simp_all
  have base: "cmp (ks ! i) (ks ! j) < 0" using asc ij by (simp add: ascending_nth)
  show "cmp (ks[p := k] ! i) (ks[p := k] ! j) < 0"
  proof (cases "i = p")
    case True
    have "cmp k (ks ! p) = 0" using swo eq by (rule swo_facts(4))
    then have "cmp k (ks ! j) < 0" using base True swo_eq_lt [OF swo] by blast
    then show ?thesis using True ij l by simp
  next
    case False
    show ?thesis
    proof (cases "j = p")
      case True
      have "cmp (ks ! i) k < 0" using base True eq swo_lt_eq [OF swo] by blast
      then show ?thesis using True False l by simp
    next
      case jp: False
      then show ?thesis using False base l by simp
    qed
  qed
qed

section \<open>The invariant of FlatMap and FlatSet\<close>

lemma Array_empty_wf: "Array_wf Array_empty" "Array_length Array_empty = 0"
  "Array_elements Array_empty = []"
  by (simp_all add: Array_wf_def Array_empty_def Array_length_def Array_capacity_def
      Array_elements_def)

lemma FlatMap_empty_inv: "FlatMap_inv cmp 0 (FlatMap_empty cmp)"
  by (simp add: FlatMap_inv_def FlatMap_empty_def Array_empty_wf FlatMap_keys_def ascending_def)

lemma FlatSet_empty_inv: "FlatSet_inv cmp 0 (FlatSet_empty cmp)"
  by (simp add: FlatSet_inv_def FlatSet_empty_def Array_empty_wf FlatSet_elements_def ascending_def)

lemma FlatMap_inv_mono: "FlatMap_inv cmp n m \<Longrightarrow> n \<le> n' \<Longrightarrow> FlatMap_inv cmp n' m"
  by (simp add: FlatMap_inv_def)

lemma FlatSet_inv_mono: "FlatSet_inv cmp n s \<Longrightarrow> n \<le> n' \<Longrightarrow> FlatSet_inv cmp n' s"
  by (simp add: FlatSet_inv_def)

lemma FlatMap_search_sorted:
  assumes swo: "strict_weak_order cmp" and inv: "FlatMap_inv cmp n m" and n: "n < 2 ^ 62"
  shows "\<exists>found p. FlatMap_search m k = Some (found, p) \<and> 0 \<le> p
           \<and> (if found then p < Array_length (m_pairs m) \<and> cmp (FlatMap_keys m ! nat p) k = 0
               else p \<le> Array_length (m_pairs m)
                    \<and> (\<forall>j < nat p. cmp (FlatMap_keys m ! j) k < 0)
                    \<and> (\<forall>j. nat p \<le> j \<and> j < length (FlatMap_keys m)
                           \<longrightarrow> cmp (FlatMap_keys m ! j) k > 0))"
proof -
  define a where "a = m_pairs m"
  define ks where "ks = FlatMap_keys m"
  have wf: "Array_wf a" and asc: "ascending cmp ks" and c: "m_comparer m = cmp"
    and le: "Array_length a \<le> n"
    using inv by (simp_all add: FlatMap_inv_def a_def ks_def)
  note b = Array_wf_bounds [OF wf]
  have l: "int (length ks) = Array_length a"
    using b(1,3) by (simp add: ks_def FlatMap_keys_def a_def)
  have l62: "int (length ks) < 2 ^ 62" using l le n by simp
  have pr: "(\<lambda>p. m_comparer m (p_key p) k) (the (a_data a ! j)) = cmp (ks ! j) k"
    if "j < length ks" for j
  proof -
    have "j < nat (Array_length a)" using that l by simp
    then show ?thesis
      using Array_elements_nth [OF _ b(2), of j] that b(3)
      by (simp add: ks_def FlatMap_keys_def a_def [symmetric] c)
  qed
  show ?thesis
    using search_loop_whole [OF swo asc l62 pr]
    unfolding FlatMap_search_def a_def [symmetric] ks_def [symmetric] l .
qed

lemma FlatSet_search_sorted:
  assumes swo: "strict_weak_order cmp" and inv: "FlatSet_inv cmp n s" and n: "n < 2 ^ 62"
  shows "\<exists>found p. FlatSet_search s v = Some (found, p) \<and> 0 \<le> p
           \<and> (if found then p < Array_length (fs_values s) \<and> cmp (FlatSet_elements s ! nat p) v = 0
               else p \<le> Array_length (fs_values s)
                    \<and> (\<forall>j < nat p. cmp (FlatSet_elements s ! j) v < 0)
                    \<and> (\<forall>j. nat p \<le> j \<and> j < length (FlatSet_elements s)
                           \<longrightarrow> cmp (FlatSet_elements s ! j) v > 0))"
proof -
  define a where "a = fs_values s"
  define ks where "ks = FlatSet_elements s"
  have wf: "Array_wf a" and asc: "ascending cmp ks" and c: "fs_comparer s = cmp"
    and le: "Array_length a \<le> n"
    using inv by (simp_all add: FlatSet_inv_def a_def ks_def)
  note b = Array_wf_bounds [OF wf]
  have l: "int (length ks) = Array_length a"
    using b(1,3) by (simp add: ks_def FlatSet_elements_def a_def)
  have l62: "int (length ks) < 2 ^ 62" using l le n by simp
  have pr: "(\<lambda>x. fs_comparer s x v) (the (a_data a ! j)) = cmp (ks ! j) v"
    if "j < length ks" for j
  proof -
    have "j < nat (Array_length a)" using that l by simp
    then show ?thesis
      using Array_elements_nth [OF _ b(2), of j]
      by (simp add: ks_def FlatSet_elements_def a_def [symmetric] c)
  qed
  show ?thesis
    using search_loop_whole [OF swo asc l62 pr]
    unfolding FlatSet_search_def a_def [symmetric] ks_def [symmetric] l .
qed

lemma FlatMap_add_inv:
  assumes swo: "strict_weak_order cmp" and inv: "FlatMap_inv cmp n m" and n: "n < 2 ^ 62"
  shows "\<exists>r m'. FlatMap_add al m k v = Some (r, m') \<and> FlatMap_inv cmp (n + 1) m'"
proof -
  define a where "a = m_pairs m"
  define ks where "ks = FlatMap_keys m"
  define xs where "xs = Array_elements a"
  have wf: "Array_wf a" and asc: "ascending cmp ks" and c: "m_comparer m = cmp"
    and le: "Array_length a \<le> n"
    using inv by (simp_all add: FlatMap_inv_def a_def ks_def)
  note b = Array_wf_bounds [OF wf]
  have kx: "ks = map p_key xs" by (simp add: ks_def xs_def FlatMap_keys_def a_def)
  have lx: "int (length xs) = Array_length a" using b(1,3) by (simp add: xs_def)
  obtain found p where s: "FlatMap_search m k = Some (found, p)" "0 \<le> p"
    and r: "if found then p < Array_length a \<and> cmp (ks ! nat p) k = 0
            else p \<le> Array_length a \<and> (\<forall>j < nat p. cmp (ks ! j) k < 0)
                 \<and> (\<forall>j. nat p \<le> j \<and> j < length ks \<longrightarrow> cmp (ks ! j) k > 0)"
    using FlatMap_search_sorted [OF swo inv n, of k] unfolding a_def ks_def by blast
  show ?thesis
  proof (cases found)
    case True
    define e where "e = (the (a_data a ! nat p))\<lparr>p_value := v\<rparr>"
    define a1 where "a1 = a\<lparr>a_data := (a_data a)[nat p := Some e]\<rparr>"
    have pl: "p < Array_length a" using r True by simp
    note as = Array_assign_elements [OF wf s(2) pl, of e, folded a1_def]
    have "FlatMap_add al m k v = Some (p, m\<lparr>m_pairs := a1\<rparr>)"
      using s(1) True by (simp add: FlatMap_add_def Let_def a_def [symmetric] a1_def e_def)
    moreover have "FlatMap_keys (m\<lparr>m_pairs := a1\<rparr>) = ks"
    proof -
      have np: "nat p < length xs" using pl s(2) lx by simp
      then have "xs ! nat p = the (a_data a ! nat p)"
        using Array_elements_nth [OF _ b(2), of "nat p"] b(3) by (simp add: xs_def)
      then have "p_key e = p_key (xs ! nat p)" by (simp add: e_def)
      then have "map p_key (xs[nat p := e]) = map p_key xs"
        using np by (simp add: map_update) (metis list_update_id map_update)
      then show ?thesis using as(3) by (simp add: FlatMap_keys_def kx xs_def)
    qed
    ultimately show ?thesis
      using as(1,2) asc c le by (simp add: FlatMap_inv_def)
  next
    case False
    define e where "e = \<lparr>p_key = k, p_value = v\<rparr>"
    have pl: "p \<le> Array_length a" using r False by simp
    have lt: "Array_length a < 2 ^ 62" using le n by simp
    obtain ok a1 where ins: "Array_insert al a p e = Some (ok, a1)"
      and res: "if ok then Array_wf a1 \<and> Array_length a1 = Array_length a + 1
                  \<and> Array_elements a1 = take (nat p) xs @ e # drop (nat p) xs
                else a1 = a"
      using Array_insert_elements [OF wf lt s(2) pl, of al e] unfolding xs_def by blast
    have add: "FlatMap_add al m k v = Some (if \<not> ok then NotFound else p, m\<lparr>m_pairs := a1\<rparr>)"
      using s(1) False ins by (simp add: FlatMap_add_def a_def [symmetric] e_def)
    show ?thesis
    proof (cases ok)
      case no: False
      then have "m\<lparr>m_pairs := a1\<rparr> = m" using res by (simp add: a_def)
      then show ?thesis using add inv FlatMap_inv_mono [OF inv, of "n + 1"] by simp
    next
      case yes: True
      have np: "nat p \<le> length ks" using pl s(2) lx by (simp add: kx)
      have "FlatMap_keys (m\<lparr>m_pairs := a1\<rparr>) = take (nat p) ks @ k # drop (nat p) ks"
        using res yes by (simp add: FlatMap_keys_def kx take_map drop_map e_def)
      moreover have "ascending cmp (take (nat p) ks @ k # drop (nat p) ks)"
        using r False by (intro ascending_insert [OF swo asc np]) simp_all
      ultimately show ?thesis
        using add res yes c le by (simp add: FlatMap_inv_def)
    qed
  qed
qed

lemma FlatMap_erased_inv:
  assumes inv: "FlatMap_inv cmp n m" and n: "n < 2 ^ 62"
  shows "FlatMap_inv cmp n (m\<lparr>m_pairs := snd (Array_erase1 (m_pairs m) index)\<rparr>)"
proof -
  define a where "a = m_pairs m"
  define ks where "ks = FlatMap_keys m"
  have wf: "Array_wf a" and asc: "ascending cmp ks" and c: "m_comparer m = cmp"
    and le: "Array_length a \<le> n"
    using inv by (simp_all add: FlatMap_inv_def a_def ks_def)
  have lt: "Array_length a < 2 ^ 63" using le n by simp
  obtain ok a1 where er: "Array_erase1 a index = (ok, a1)"
    and res: "if ok then 0 \<le> index \<and> index < Array_length a \<and> Array_wf a1
                \<and> Array_length a1 = Array_length a - 1
                \<and> Array_elements a1
                    = take (nat index) (Array_elements a) @ drop (nat index + 1) (Array_elements a)
              else a1 = a"
    using Array_erase1_elements [OF wf lt, of index] by blast
  show ?thesis
  proof (cases ok)
    case False
    then have "m\<lparr>m_pairs := snd (Array_erase1 (m_pairs m) index)\<rparr> = m"
      using er res by (simp add: a_def)
    then show ?thesis using inv by simp
  next
    case True
    have "FlatMap_keys (m\<lparr>m_pairs := a1\<rparr>) = take (nat index) ks @ drop (nat index + 1) ks"
      using res True by (simp add: FlatMap_keys_def ks_def a_def take_map drop_map)
    moreover have "ascending cmp (take (nat index) ks @ drop (nat index + 1) ks)"
      using asc by (rule ascending_erase)
    ultimately show ?thesis
      using er res True c le by (simp add: FlatMap_inv_def a_def [symmetric])
  qed
qed

lemma FlatMap_erase_inv:
  assumes swo: "strict_weak_order cmp" and inv: "FlatMap_inv cmp n m" and n: "n < 2 ^ 62"
  shows "\<exists>r m'. FlatMap_erase m k = Some (r, m') \<and> FlatMap_inv cmp n m'"
proof -
  obtain found p where s: "FlatMap_search m k = Some (found, p)"
    using FlatMap_search_sorted [OF swo inv n, of k] by blast
  show ?thesis
  proof (cases found)
    case False
    then show ?thesis using s inv by (auto simp: FlatMap_erase_def)
  next
    case True
    then have "FlatMap_erase m k
               = Some (fst (Array_erase1 (m_pairs m) p),
                       m\<lparr>m_pairs := snd (Array_erase1 (m_pairs m) p)\<rparr>)"
      using s by (simp add: FlatMap_erase_def split: prod.split)
    then show ?thesis using FlatMap_erased_inv [OF inv n, of p] by simp
  qed
qed

lemma FlatMap_erase_at_inv:
  assumes inv: "FlatMap_inv cmp n m" and n: "n < 2 ^ 62"
  shows "FlatMap_inv cmp n (snd (FlatMap_erase_at m location))"
  using FlatMap_erased_inv [OF inv n, of location] inv
  by (cases "Array_erase1 (m_pairs m) location") (simp add: FlatMap_erase_at_def)

lemma FlatMap_apply_inv:
  assumes swo: "strict_weak_order cmp" and inv: "FlatMap_inv cmp n m" and n: "n < 2 ^ 62"
  shows "\<exists>m'. FlatMap_apply operation m = Some m' \<and> FlatMap_inv cmp (n + 1) m'"
proof (cases operation)
  case (MapAdd al k v)
  then show ?thesis using FlatMap_add_inv [OF swo inv n, of al k v] by auto
next
  case (MapErase k)
  then show ?thesis
    using FlatMap_erase_inv [OF swo inv n, of k] FlatMap_inv_mono [of cmp n _ "n + 1"] by auto
next
  case (MapEraseAt location)
  then show ?thesis
    using FlatMap_erase_at_inv [OF inv n, of location] FlatMap_inv_mono [of cmp n _ "n + 1"]
    by auto
qed

lemma FlatMap_run_inv:
  assumes swo: "strict_weak_order cmp"
  shows "FlatMap_inv cmp n m \<Longrightarrow> n + int (length ops) < 2 ^ 62
         \<Longrightarrow> \<exists>m'. FlatMap_run ops m = Some m' \<and> FlatMap_inv cmp (n + int (length ops)) m'"
proof (induction ops arbitrary: n m)
  case Nil
  then show ?case by simp
next
  case (Cons operation rest)
  have n: "n < 2 ^ 62" using Cons.prems(2) by simp
  obtain m1 where m1: "FlatMap_apply operation m = Some m1" "FlatMap_inv cmp (n + 1) m1"
    using FlatMap_apply_inv [OF swo Cons.prems(1) n] by blast
  have "n + 1 + int (length rest) < 2 ^ 62" using Cons.prems(2) by simp
  from Cons.IH [OF m1(2) this] m1(1) show ?case by (simp add: algebra_simps)
qed

lemma FlatSet_insert_inv:
  assumes swo: "strict_weak_order cmp" and inv: "FlatSet_inv cmp n s" and n: "n < 2 ^ 62"
    and se: "FlatSet_search s v = Some (False, p)" "0 \<le> p"
    and r: "p \<le> Array_length (fs_values s)" "\<forall>j < nat p. cmp (FlatSet_elements s ! j) v < 0"
      "\<forall>j. nat p \<le> j \<and> j < length (FlatSet_elements s) \<longrightarrow> cmp (FlatSet_elements s ! j) v > 0"
  shows "\<exists>ok a1. Array_insert al (fs_values s) p v = Some (ok, a1)
           \<and> FlatSet_inv cmp (n + 1) (s\<lparr>fs_values := a1\<rparr>)"
proof -
  define a where "a = fs_values s"
  define ks where "ks = FlatSet_elements s"
  have wf: "Array_wf a" and asc: "ascending cmp ks" and c: "fs_comparer s = cmp"
    and le: "Array_length a \<le> n"
    using inv by (simp_all add: FlatSet_inv_def a_def ks_def)
  note b = Array_wf_bounds [OF wf]
  have kx: "ks = Array_elements a" by (simp add: ks_def FlatSet_elements_def a_def)
  have lx: "int (length ks) = Array_length a" using b(1,3) by (simp add: kx)
  have lt: "Array_length a < 2 ^ 62" using le n by simp
  obtain ok a1 where ins: "Array_insert al a p v = Some (ok, a1)"
    and res: "if ok then Array_wf a1 \<and> Array_length a1 = Array_length a + 1
                \<and> Array_elements a1 = take (nat p) ks @ v # drop (nat p) ks
              else a1 = a"
    using Array_insert_elements [OF wf lt se(2) r(1) [folded a_def], of al v] unfolding kx by blast
  show ?thesis
  proof (cases ok)
    case False
    then have "s\<lparr>fs_values := a1\<rparr> = s" using res by (simp add: a_def)
    then show ?thesis using ins FlatSet_inv_mono [OF inv, of "n + 1"] by (auto simp: a_def)
  next
    case True
    have np: "nat p \<le> length ks" using r(1) se(2) lx by (simp add: a_def)
    have "ascending cmp (take (nat p) ks @ v # drop (nat p) ks)"
      using r(2,3) by (intro ascending_insert [OF swo asc np]) (simp_all add: ks_def)
    then show ?thesis
      using ins res True c le by (auto simp: FlatSet_inv_def FlatSet_elements_def a_def)
  qed
qed

lemma FlatSet_add_inv:
  assumes swo: "strict_weak_order cmp" and inv: "FlatSet_inv cmp n s" and n: "n < 2 ^ 62"
  shows "\<exists>r s'. FlatSet_add al s v = Some (r, s') \<and> FlatSet_inv cmp (n + 1) s'"
proof -
  obtain found p where se: "FlatSet_search s v = Some (found, p)" "0 \<le> p"
    and r: "if found then p < Array_length (fs_values s) \<and> cmp (FlatSet_elements s ! nat p) v = 0
            else p \<le> Array_length (fs_values s)
                 \<and> (\<forall>j < nat p. cmp (FlatSet_elements s ! j) v < 0)
                 \<and> (\<forall>j. nat p \<le> j \<and> j < length (FlatSet_elements s)
                        \<longrightarrow> cmp (FlatSet_elements s ! j) v > 0)"
    using FlatSet_search_sorted [OF swo inv n, of v] by blast
  show ?thesis
  proof (cases found)
    case True
    then show ?thesis
      using se(1) FlatSet_inv_mono [OF inv, of "n + 1"] by (simp add: FlatSet_add_def)
  next
    case False
    then obtain ok a1 where "Array_insert al (fs_values s) p v = Some (ok, a1)"
      "FlatSet_inv cmp (n + 1) (s\<lparr>fs_values := a1\<rparr>)"
      using FlatSet_insert_inv [OF swo inv n _ se(2), where al = al and v = v] se(1) r by auto
    then show ?thesis using se(1) False by (simp add: FlatSet_add_def)
  qed
qed

lemma FlatSet_update_inv:
  assumes swo: "strict_weak_order cmp" and inv: "FlatSet_inv cmp n s" and n: "n < 2 ^ 62"
  shows "\<exists>r s'. FlatSet_update al s v = Some (r, s') \<and> FlatSet_inv cmp (n + 1) s'"
proof -
  obtain found p where se: "FlatSet_search s v = Some (found, p)" "0 \<le> p"
    and r: "if found then p < Array_length (fs_values s) \<and> cmp (FlatSet_elements s ! nat p) v = 0
            else p \<le> Array_length (fs_values s)
                 \<and> (\<forall>j < nat p. cmp (FlatSet_elements s ! j) v < 0)
                 \<and> (\<forall>j. nat p \<le> j \<and> j < length (FlatSet_elements s)
                        \<longrightarrow> cmp (FlatSet_elements s ! j) v > 0)"
    using FlatSet_search_sorted [OF swo inv n, of v] by blast
  show ?thesis
  proof (cases found)
    case False
    then obtain ok a1 where "Array_insert al (fs_values s) p v = Some (ok, a1)"
      "FlatSet_inv cmp (n + 1) (s\<lparr>fs_values := a1\<rparr>)"
      using FlatSet_insert_inv [OF swo inv n _ se(2), where al = al and v = v] se(1) r by auto
    then show ?thesis using se(1) False by (simp add: FlatSet_update_def)
  next
    case True
    define a where "a = fs_values s"
    define ks where "ks = FlatSet_elements s"
    define a1 where "a1 = a\<lparr>a_data := (a_data a)[nat p := Some v]\<rparr>"
    have wf: "Array_wf a" and asc: "ascending cmp ks" and c: "fs_comparer s = cmp"
      and le: "Array_length a \<le> n"
      using inv by (simp_all add: FlatSet_inv_def a_def ks_def)
    note b = Array_wf_bounds [OF wf]
    have pl: "p < Array_length a" and eq: "cmp (ks ! nat p) v = 0"
      using r True by (simp_all add: a_def ks_def)
    note as = Array_assign_elements [OF wf se(2) pl, of v, folded a1_def]
    have np: "nat p < length ks"
      using pl se(2) b(3) by (simp add: ks_def FlatSet_elements_def a_def)
    have "ascending cmp (ks[nat p := v])" using swo asc np eq by (rule ascending_replace)
    then have "FlatSet_inv cmp n (s\<lparr>fs_values := a1\<rparr>)"
      using as c le by (simp add: FlatSet_inv_def FlatSet_elements_def ks_def a_def)
    moreover have "FlatSet_update al s v = Some (True, s\<lparr>fs_values := a1\<rparr>)"
      using se(1) True by (simp add: FlatSet_update_def Let_def a_def a1_def)
    ultimately show ?thesis using FlatSet_inv_mono [of cmp n _ "n + 1"] by auto
  qed
qed

lemma FlatSet_erased_inv:
  assumes inv: "FlatSet_inv cmp n s" and n: "n < 2 ^ 62"
  shows "FlatSet_inv cmp n (s\<lparr>fs_values := snd (Array_erase1 (fs_values s) index)\<rparr>)"
proof -
  define a where "a = fs_values s"
  define ks where "ks = FlatSet_elements s"
  have wf: "Array_wf a" and asc: "ascending cmp ks" and c: "fs_comparer s = cmp"
    and le: "Array_length a \<le> n"
    using inv by (simp_all add: FlatSet_inv_def a_def ks_def)
  have lt: "Array_length a < 2 ^ 63" using le n by simp
  obtain ok a1 where er: "Array_erase1 a index = (ok, a1)"
    and res: "if ok then 0 \<le> index \<and> index < Array_length a \<and> Array_wf a1
                \<and> Array_length a1 = Array_length a - 1
                \<and> Array_elements a1
                    = take (nat index) (Array_elements a) @ drop (nat index + 1) (Array_elements a)
              else a1 = a"
    using Array_erase1_elements [OF wf lt, of index] by blast
  show ?thesis
  proof (cases ok)
    case False
    then have "s\<lparr>fs_values := snd (Array_erase1 (fs_values s) index)\<rparr> = s"
      using er res by (simp add: a_def)
    then show ?thesis using inv by simp
  next
    case True
    have "FlatSet_elements (s\<lparr>fs_values := a1\<rparr>) = take (nat index) ks @ drop (nat index + 1) ks"
      using res True by (simp add: FlatSet_elements_def ks_def a_def)
    moreover have "ascending cmp (take (nat index) ks @ drop (nat index + 1) ks)"
      using asc by (rule ascending_erase)
    ultimately show ?thesis
      using er res True c le by (simp add: FlatSet_inv_def a_def [symmetric])
  qed
qed

lemma FlatSet_erase_inv:
  assumes swo: "strict_weak_order cmp" and inv: "FlatSet_inv cmp n s" and n: "n < 2 ^ 62"
  shows "\<exists>r s'. FlatSet_erase s v = Some (r, s') \<and> FlatSet_inv cmp n s'"
proof -
  obtain found p where se: "FlatSet_search s v = Some (found, p)"
    using FlatSet_search_sorted [OF swo inv n, of v] by blast
  show ?thesis
  proof (cases found)
    case False
    then show ?thesis using se inv by (auto simp: FlatSet_erase_def)
  next
    case True
    then have "FlatSet_erase s v
               = Some (fst (Array_erase1 (fs_values s) p),
                       s\<lparr>fs_values := snd (Array_erase1 (fs_values s) p)\<rparr>)"
      using se by (simp add: FlatSet_erase_def split: prod.split)
    then show ?thesis using FlatSet_erased_inv [OF inv n, of p] by simp
  qed
qed

lemma FlatSet_erase_at_inv:
  assumes inv: "FlatSet_inv cmp n s" and n: "n < 2 ^ 62"
  shows "FlatSet_inv cmp n (snd (FlatSet_erase_at s location))"
  using FlatSet_erased_inv [OF inv n, of location]
  by (cases "Array_erase1 (fs_values s) location") (simp add: FlatSet_erase_at_def)

lemma FlatSet_apply_inv:
  assumes swo: "strict_weak_order cmp" and inv: "FlatSet_inv cmp n s" and n: "n < 2 ^ 62"
  shows "\<exists>s'. FlatSet_apply operation s = Some s' \<and> FlatSet_inv cmp (n + 1) s'"
proof (cases operation)
  case (SetAdd al v)
  then show ?thesis using FlatSet_add_inv [OF swo inv n, of al v] by auto
next
  case (SetUpdate al v)
  then show ?thesis using FlatSet_update_inv [OF swo inv n, of al v] by auto
next
  case (SetErase v)
  then show ?thesis
    using FlatSet_erase_inv [OF swo inv n, of v] FlatSet_inv_mono [of cmp n _ "n + 1"] by auto
next
  case (SetEraseAt location)
  then show ?thesis
    using FlatSet_erase_at_inv [OF inv n, of location] FlatSet_inv_mono [of cmp n _ "n + 1"]
    by auto
qed

lemma FlatSet_run_inv:
  assumes swo: "strict_weak_order cmp"
  shows "FlatSet_inv cmp n s \<Longrightarrow> n + int (length ops) < 2 ^ 62
         \<Longrightarrow> \<exists>s'. FlatSet_run ops s = Some s' \<and> FlatSet_inv cmp (n + int (length ops)) s'"
proof (induction ops arbitrary: n s)
  case Nil
  then show ?case by simp
next
  case (Cons operation rest)
  have n: "n < 2 ^ 62" using Cons.prems(2) by simp
  obtain s1 where s1: "FlatSet_apply operation s = Some s1" "FlatSet_inv cmp (n + 1) s1"
    using FlatSet_apply_inv [OF swo Cons.prems(1) n] by blast
  have "n + 1 + int (length rest) < 2 ^ 62" using Cons.prems(2) by simp
  from Cons.IH [OF s1(2) this] s1(1) show ?case by (simp add: algebra_simps)
qed

text \<open>Adding a key that the map holds: the pair stays where it is and takes the new value.\<close>

lemma FlatMap_add_existing:
  assumes swo: "strict_weak_order cmp" and inv: "FlatMap_inv cmp n m" and n: "n < 2 ^ 62"
    and j: "j < length (FlatMap_keys m)" and eq: "cmp (FlatMap_keys m ! j) k = 0"
  shows "\<exists>m'. FlatMap_add al m k v = Some (int j, m') \<and> FlatMap_keys m' = FlatMap_keys m
           \<and> FlatMap_values m' = (FlatMap_values m)[j := v]"
proof -
  define a where "a = m_pairs m"
  define ks where "ks = FlatMap_keys m"
  define xs where "xs = Array_elements a"
  have wf: "Array_wf a" and asc: "ascending cmp ks" and c: "m_comparer m = cmp"
    using inv by (simp_all add: FlatMap_inv_def a_def ks_def)
  note b = Array_wf_bounds [OF wf]
  have kx: "ks = map p_key xs" by (simp add: ks_def xs_def FlatMap_keys_def a_def)
  have lx: "int (length xs) = Array_length a" using b(1,3) by (simp add: xs_def)
  obtain found p where s: "FlatMap_search m k = Some (found, p)" "0 \<le> p"
    and r: "if found then p < Array_length a \<and> cmp (ks ! nat p) k = 0
            else p \<le> Array_length a \<and> (\<forall>i < nat p. cmp (ks ! i) k < 0)
                 \<and> (\<forall>i. nat p \<le> i \<and> i < length ks \<longrightarrow> cmp (ks ! i) k > 0)"
    using FlatMap_search_sorted [OF swo inv n, of k] unfolding a_def ks_def by blast
  have jk: "j < length ks" "cmp (ks ! j) k = 0" using j eq by (simp_all add: ks_def)
  have found: found
  proof (rule ccontr)
    assume "\<not> found"
    then have "(\<forall>i < nat p. cmp (ks ! i) k < 0)
               \<and> (\<forall>i. nat p \<le> i \<and> i < length ks \<longrightarrow> cmp (ks ! i) k > 0)"
      using r by simp
    then have lo: "\<forall>i < nat p. cmp (ks ! i) k < 0"
      and hi: "\<forall>i. nat p \<le> i \<and> i < length ks \<longrightarrow> cmp (ks ! i) k > 0"
      by simp_all
    show False
    proof (cases "j < nat p")
      case True
      with lo have "cmp (ks ! j) k < 0" by blast
      with jk(2) show False by simp
    next
      case False
      with hi jk(1) have "cmp (ks ! j) k > 0" by simp
      with jk(2) show False by simp
    qed
  qed
  then have pl: "p < Array_length a" and pe: "cmp (ks ! nat p) k = 0" using r by simp_all
  have np: "nat p < length ks" using pl s(2) lx by (simp add: kx)
  have pj: "nat p = j"
  proof (rule ccontr)
    assume ne: "nat p \<noteq> j"
    show False
    proof (cases "nat p < j")
      case True
      then have "cmp (ks ! nat p) (ks ! j) < 0" using asc jk(1) by (simp add: ascending_nth)
      then have "cmp (ks ! nat p) k < 0" using swo_lt_eq [OF swo _ jk(2)] by blast
      with pe show False by simp
    next
      case False
      with ne have "j < nat p" by simp
      then have "cmp (ks ! j) (ks ! nat p) < 0" using asc np by (simp add: ascending_nth)
      then have "cmp (ks ! j) k < 0" using swo_lt_eq [OF swo _ pe] by blast
      with jk(2) show False by simp
    qed
  qed
  define e where "e = (the (a_data a ! nat p))\<lparr>p_value := v\<rparr>"
  define a1 where "a1 = a\<lparr>a_data := (a_data a)[nat p := Some e]\<rparr>"
  note as = Array_assign_elements [OF wf s(2) pl, of e, folded a1_def]
  have add: "FlatMap_add al m k v = Some (p, m\<lparr>m_pairs := a1\<rparr>)"
    using s(1) found by (simp add: FlatMap_add_def Let_def a_def [symmetric] a1_def e_def)
  have nx: "nat p < length xs" using np by (simp add: kx)
  then have xp: "xs ! nat p = the (a_data a ! nat p)"
    using Array_elements_nth [OF _ b(2), of "nat p"] b(3) by (simp add: xs_def)
  have "map p_key (xs[nat p := e]) = map p_key xs"
    using nx xp by (simp add: map_update e_def) (metis list_update_id map_update)
  then have k1: "FlatMap_keys (m\<lparr>m_pairs := a1\<rparr>) = ks"
    using as(3) by (simp add: FlatMap_keys_def kx xs_def)
  have v1: "FlatMap_values (m\<lparr>m_pairs := a1\<rparr>) = (FlatMap_values m)[nat p := v]"
    using as(3) by (simp add: FlatMap_values_def a_def [symmetric] map_update e_def)
  have "p = int j" using pj s(2) by simp
  then show ?thesis using add k1 v1 pj by (simp add: ks_def)
qed

lemma ascending_no_duplicates:
  assumes swo: "strict_weak_order cmp" and asc: "ascending cmp ks"
    and i: "i < length ks" and j: "j < length ks" and eq: "cmp (ks ! i) (ks ! j) = 0"
  shows "i = j"
proof (rule ccontr)
  assume ne: "i \<noteq> j"
  show False
  proof (cases "i < j")
    case True
    then have "cmp (ks ! i) (ks ! j) < 0" using asc j by (simp add: ascending_nth)
    with eq show False by simp
  next
    case False
    with ne have "j < i" by simp
    then have "cmp (ks ! j) (ks ! i) < 0" using asc i by (simp add: ascending_nth)
    then have "cmp (ks ! i) (ks ! j) > 0" using swo_facts(1) [OF swo] by blast
    with eq show False by simp
  qed
qed

text \<open>A search for a key that the sorted list holds at \<open>j\<close> ends at \<open>j\<close>.\<close>

lemma search_hit_index:
  assumes swo: "strict_weak_order cmp" and asc: "ascending cmp ks"
    and j: "j < length ks" and eq: "cmp (ks ! j) k = 0" and p: "0 \<le> p"
    and r: "if found then p < int (length ks) \<and> cmp (ks ! nat p) k = 0
            else p \<le> int (length ks) \<and> (\<forall>i < nat p. cmp (ks ! i) k < 0)
                 \<and> (\<forall>i. nat p \<le> i \<and> i < length ks \<longrightarrow> cmp (ks ! i) k > 0)"
  shows "found \<and> p = int j"
proof -
  have found: found
  proof (rule ccontr)
    assume "\<not> found"
    then have lo: "\<forall>i < nat p. cmp (ks ! i) k < 0"
      and hi: "\<forall>i. nat p \<le> i \<and> i < length ks \<longrightarrow> cmp (ks ! i) k > 0"
      using r by simp_all
    show False
    proof (cases "j < nat p")
      case True
      with lo have "cmp (ks ! j) k < 0" by blast
      with eq show False by simp
    next
      case False
      with hi j have "cmp (ks ! j) k > 0" by simp
      with eq show False by simp
    qed
  qed
  then have np: "nat p < length ks" and pe: "cmp (ks ! nat p) k = 0"
    using r p by (simp_all add: nat_less_iff)
  have "cmp k (ks ! j) = 0"
    using swo_facts(1) [OF swo, of k "ks ! j"] swo_facts(1) [OF swo, of "ks ! j" k] eq
    by (cases "cmp k (ks ! j)" "0 :: int" rule: linorder_cases) simp_all
  then have "cmp (ks ! nat p) (ks ! j) = 0" using swo_facts(3) [OF swo] pe by blast
  with swo asc np j have "nat p = j" by (rule ascending_no_duplicates)
  then show ?thesis using found p by simp
qed

lemma FlatSet_add_existing:
  assumes swo: "strict_weak_order cmp" and inv: "FlatSet_inv cmp n s" and n: "n < 2 ^ 62"
    and j: "j < length (FlatSet_elements s)" and eq: "cmp (FlatSet_elements s ! j) v = 0"
  shows "FlatSet_add al s v = Some (int j, s)"
proof -
  have wf: "Array_wf (fs_values s)" and asc: "ascending cmp (FlatSet_elements s)"
    using inv by (simp_all add: FlatSet_inv_def)
  note b = Array_wf_bounds [OF wf]
  have lx: "int (length (FlatSet_elements s)) = Array_length (fs_values s)"
    using b(1,3) by (simp add: FlatSet_elements_def)
  obtain found p where se: "FlatSet_search s v = Some (found, p)" "0 \<le> p"
    and r: "if found then p < Array_length (fs_values s) \<and> cmp (FlatSet_elements s ! nat p) v = 0
            else p \<le> Array_length (fs_values s)
                 \<and> (\<forall>j < nat p. cmp (FlatSet_elements s ! j) v < 0)
                 \<and> (\<forall>j. nat p \<le> j \<and> j < length (FlatSet_elements s)
                        \<longrightarrow> cmp (FlatSet_elements s ! j) v > 0)"
    using FlatSet_search_sorted [OF swo inv n, of v] by blast
  have "found \<and> p = int j"
    using swo asc j eq se(2) r [folded lx] by (rule search_hit_index)
  then show ?thesis using se(1) by (simp add: FlatSet_add_def)
qed

lemma FlatSet_update_existing:
  assumes swo: "strict_weak_order cmp" and inv: "FlatSet_inv cmp n s" and n: "n < 2 ^ 62"
    and j: "j < length (FlatSet_elements s)" and eq: "cmp (FlatSet_elements s ! j) v = 0"
  shows "\<exists>s'. FlatSet_update al s v = Some (True, s')
           \<and> FlatSet_elements s' = (FlatSet_elements s)[j := v]"
proof -
  define a where "a = fs_values s"
  have wf: "Array_wf a" and asc: "ascending cmp (FlatSet_elements s)"
    using inv by (simp_all add: FlatSet_inv_def a_def)
  note b = Array_wf_bounds [OF wf]
  have lx: "int (length (FlatSet_elements s)) = Array_length a"
    using b(1,3) by (simp add: FlatSet_elements_def a_def)
  obtain found p where se: "FlatSet_search s v = Some (found, p)" "0 \<le> p"
    and r: "if found then p < Array_length a \<and> cmp (FlatSet_elements s ! nat p) v = 0
            else p \<le> Array_length a
                 \<and> (\<forall>j < nat p. cmp (FlatSet_elements s ! j) v < 0)
                 \<and> (\<forall>j. nat p \<le> j \<and> j < length (FlatSet_elements s)
                        \<longrightarrow> cmp (FlatSet_elements s ! j) v > 0)"
    using FlatSet_search_sorted [OF swo inv n, of v] unfolding a_def by blast
  have fp: "found \<and> p = int j"
    using swo asc j eq se(2) r [folded lx] by (rule search_hit_index)
  define a1 where "a1 = a\<lparr>a_data := (a_data a)[nat p := Some v]\<rparr>"
  have pl: "p < Array_length a" using fp j lx by simp
  note as = Array_assign_elements [OF wf se(2) pl, of v, folded a1_def]
  have "FlatSet_update al s v = Some (True, s\<lparr>fs_values := a1\<rparr>)"
    using se(1) fp by (simp add: FlatSet_update_def Let_def a_def a1_def)
  moreover have "FlatSet_elements (s\<lparr>fs_values := a1\<rparr>) = (FlatSet_elements s)[j := v]"
    using as(3) fp by (simp add: FlatSet_elements_def a_def)
  ultimately show ?thesis by blast
qed

lemma DefaultCompare_strict_weak_order: "strict_weak_order (DefaultCompare :: int \<Rightarrow> int \<Rightarrow> int)"
  by (auto simp: strict_weak_order_def DefaultCompare_def)

lemma DefaultCompare_image_strict_weak_order:
  "strict_weak_order (\<lambda>a b. DefaultCompare (f a :: 'b :: linorder) (f b))"
  by (auto simp: strict_weak_order_def DefaultCompare_def)

lemma by_tens_strict_weak_order: "strict_weak_order by_tens"
proof -
  have e: "by_tens = (\<lambda>a b. DefaultCompare (a div 10) (b div 10))"
    by (intro ext) (simp add: by_tens_def)
  show ?thesis unfolding e by (rule DefaultCompare_image_strict_weak_order)
qed

lemma map_ops_run:
  "map_option FlatMap_keys (FlatMap_run map_ops (FlatMap_empty DefaultCompare)) = Some [0, 3]
   \<and> map_option FlatMap_values (FlatMap_run map_ops (FlatMap_empty DefaultCompare)) = Some [0, 9]"
  by code_simp

lemma set_ops_run:
  "map_option FlatSet_elements (FlatSet_run set_ops (FlatSet_empty DefaultCompare)) = Some [3, 4, 7]"
  by code_simp

section \<open>Claims about FlatMap and FlatSet\<close>

text \<open>
  C7, as stated, says that adding an existing key updates the stored value in place, for
  \<open>FlatMap::add\<close>, \<open>FlatSet::add\<close> and \<open>FlatSet::update\<close> alike. \<open>FlatSet::add\<close> does not: with
  the comparer \<open>by_tens\<close>, a strict weak ordering, the set that holds \<open>11\<close> still holds \<open>11\<close>
  after \<open>add(12)\<close>, an equivalent element; after \<open>update(12)\<close> it holds \<open>12\<close>.
\<close>

theorem FlatSet_add_keeps_element_counterexample:
  "strict_weak_order by_tens
   \<and> map_option FlatSet_elements (FlatSet_run [SetAdd granting 11] (FlatSet_empty by_tens)) = Some [11]
   \<and> by_tens 11 12 = 0
   \<and> map_option FlatSet_elements
        (FlatSet_run [SetAdd granting 11, SetAdd granting 12] (FlatSet_empty by_tens)) = Some [11]
   \<and> map_option FlatSet_elements
        (FlatSet_run [SetAdd granting 11, SetUpdate granting 12] (FlatSet_empty by_tens)) = Some [12]"
proof -
  have "map_option FlatSet_elements (FlatSet_run [SetAdd granting 11] (FlatSet_empty by_tens)) = Some [11]
   \<and> by_tens 11 12 = 0
   \<and> map_option FlatSet_elements
        (FlatSet_run [SetAdd granting 11, SetAdd granting 12] (FlatSet_empty by_tens)) = Some [11]
   \<and> map_option FlatSet_elements
        (FlatSet_run [SetAdd granting 11, SetUpdate granting 12] (FlatSet_empty by_tens)) = Some [12]"
    by code_simp
  then show ?thesis using by_tens_strict_weak_order by simp
qed

text \<open>
  C7: the comparers being strict weak orderings, every sequence of fewer than \<open>2\<^sup>6\<^sup>2\<close>
  operations \<open>FlatMap::add\<close>, \<open>FlatMap::erase\<close> (by key and by location) on an empty map, and of
  \<open>FlatSet::add\<close>, \<open>FlatSet::update\<close>, \<open>FlatSet::erase\<close> (by value and by location) on an empty
  set, whichever allocations are refused, returns; iteration over the result visits the
  keys in strictly ascending order, and no two positions hold equivalent keys. On the
  result, \<open>FlatMap::add\<close> of a key equivalent to the one at position \<open>j\<close> returns the location
  \<open>j\<close>, leaves the keys as they are and writes the value at \<open>j\<close>; \<open>FlatSet::update\<close> of such an
  element returns \<open>true\<close> and writes the element at \<open>j\<close>; \<open>FlatSet::add\<close> of such an element
  returns the location \<open>j\<close> and leaves the set as it is.
\<close>

theorem FlatMap_FlatSet_sorted:
  assumes "strict_weak_order cmpk" and "strict_weak_order cmpv"
    and "int (length mops) < 2 ^ 62" and "int (length sops) < 2 ^ 62"
  shows "\<exists>m s. FlatMap_run mops (FlatMap_empty cmpk) = Some m
           \<and> FlatSet_run sops (FlatSet_empty cmpv) = Some s
           \<and> ascending cmpk (FlatMap_keys m)
           \<and> ascending cmpv (FlatSet_elements s)
           \<and> (\<forall>i j. i < length (FlatMap_keys m) \<and> j < length (FlatMap_keys m)
                  \<and> cmpk (FlatMap_keys m ! i) (FlatMap_keys m ! j) = 0 \<longrightarrow> i = j)
           \<and> (\<forall>i j. i < length (FlatSet_elements s) \<and> j < length (FlatSet_elements s)
                  \<and> cmpv (FlatSet_elements s ! i) (FlatSet_elements s ! j) = 0 \<longrightarrow> i = j)
           \<and> (\<forall>j al k v. j < length (FlatMap_keys m) \<and> cmpk (FlatMap_keys m ! j) k = 0
                  \<longrightarrow> (\<exists>m'. FlatMap_add al m k v = Some (int j, m')
                         \<and> FlatMap_keys m' = FlatMap_keys m
                         \<and> FlatMap_values m' = (FlatMap_values m)[j := v]))
           \<and> (\<forall>j al v. j < length (FlatSet_elements s) \<and> cmpv (FlatSet_elements s ! j) v = 0
                  \<longrightarrow> (\<exists>s'. FlatSet_update al s v = Some (True, s')
                         \<and> FlatSet_elements s' = (FlatSet_elements s)[j := v]))
           \<and> (\<forall>j al v. j < length (FlatSet_elements s) \<and> cmpv (FlatSet_elements s ! j) v = 0
                  \<longrightarrow> FlatSet_add al s v = Some (int j, s))"
proof -
  have m0: "0 + int (length mops) < 2 ^ 62" and s0: "0 + int (length sops) < 2 ^ 62"
    using assms(3,4) by simp_all
  obtain m where m: "FlatMap_run mops (FlatMap_empty cmpk) = Some m"
    and mi: "FlatMap_inv cmpk (int (length mops)) m"
    using FlatMap_run_inv [OF assms(1) FlatMap_empty_inv m0] by auto
  obtain s where s: "FlatSet_run sops (FlatSet_empty cmpv) = Some s"
    and si: "FlatSet_inv cmpv (int (length sops)) s"
    using FlatSet_run_inv [OF assms(2) FlatSet_empty_inv s0] by auto
  have am: "ascending cmpk (FlatMap_keys m)" using mi by (simp add: FlatMap_inv_def)
  have as: "ascending cmpv (FlatSet_elements s)" using si by (simp add: FlatSet_inv_def)
  have dm: "\<forall>i j. i < length (FlatMap_keys m) \<and> j < length (FlatMap_keys m)
                  \<and> cmpk (FlatMap_keys m ! i) (FlatMap_keys m ! j) = 0 \<longrightarrow> i = j"
    using ascending_no_duplicates [OF assms(1) am] by blast
  have ds: "\<forall>i j. i < length (FlatSet_elements s) \<and> j < length (FlatSet_elements s)
                  \<and> cmpv (FlatSet_elements s ! i) (FlatSet_elements s ! j) = 0 \<longrightarrow> i = j"
    using ascending_no_duplicates [OF assms(2) as] by blast
  have um: "\<forall>j al k v. j < length (FlatMap_keys m) \<and> cmpk (FlatMap_keys m ! j) k = 0
                  \<longrightarrow> (\<exists>m'. FlatMap_add al m k v = Some (int j, m')
                         \<and> FlatMap_keys m' = FlatMap_keys m
                         \<and> FlatMap_values m' = (FlatMap_values m)[j := v])"
    using FlatMap_add_existing [OF assms(1) mi assms(3)] by blast
  have us: "\<forall>j al v. j < length (FlatSet_elements s) \<and> cmpv (FlatSet_elements s ! j) v = 0
                  \<longrightarrow> (\<exists>s'. FlatSet_update al s v = Some (True, s')
                         \<and> FlatSet_elements s' = (FlatSet_elements s)[j := v])"
    using FlatSet_update_existing [OF assms(2) si assms(4)] by blast
  have ad: "\<forall>j al v. j < length (FlatSet_elements s) \<and> cmpv (FlatSet_elements s ! j) v = 0
                  \<longrightarrow> FlatSet_add al s v = Some (int j, s)"
    using FlatSet_add_existing [OF assms(2) si assms(4)] by blast
  show ?thesis using m s am as dm ds um us ad by blast
qed

theorem FlatMap_FlatSet_sorted_witness:
  "strict_weak_order (DefaultCompare :: int \<Rightarrow> int \<Rightarrow> int)
   \<and> int (length map_ops) < 2 ^ 62 \<and> int (length set_ops) < 2 ^ 62
   \<and> (\<exists>m s. FlatMap_run map_ops (FlatMap_empty DefaultCompare) = Some m
           \<and> FlatSet_run set_ops (FlatSet_empty DefaultCompare) = Some s
           \<and> FlatMap_keys m = [0, 3] \<and> FlatMap_values m = [0, 9]
           \<and> FlatSet_elements s = [3, 4, 7]
           \<and> ascending DefaultCompare (FlatMap_keys m)
           \<and> ascending DefaultCompare (FlatSet_elements s)
           \<and> (\<exists>m'. FlatMap_add refusing m 3 8 = Some (1, m')
                  \<and> FlatMap_keys m' = [0, 3] \<and> FlatMap_values m' = [0, 8])
           \<and> FlatSet_add refusing s 4 = Some (1, s))"
proof -
  have l: "int (length map_ops) < 2 ^ 62" "int (length set_ops) < 2 ^ 62"
    by (simp_all add: map_ops_def set_ops_def)
  obtain m s where r: "FlatMap_run map_ops (FlatMap_empty DefaultCompare) = Some m"
      "FlatSet_run set_ops (FlatSet_empty DefaultCompare) = Some s"
      "ascending DefaultCompare (FlatMap_keys m)"
      "ascending DefaultCompare (FlatSet_elements s)"
    and um: "\<forall>j al k v. j < length (FlatMap_keys m) \<and> DefaultCompare (FlatMap_keys m ! j) k = 0
                  \<longrightarrow> (\<exists>m'. FlatMap_add al m k v = Some (int j, m')
                         \<and> FlatMap_keys m' = FlatMap_keys m
                         \<and> FlatMap_values m' = (FlatMap_values m)[j := v])"
    and ad: "\<forall>j al v. j < length (FlatSet_elements s) \<and> DefaultCompare (FlatSet_elements s ! j) v = 0
                  \<longrightarrow> FlatSet_add al s v = Some (int j, s)"
    using FlatMap_FlatSet_sorted
      [OF DefaultCompare_strict_weak_order DefaultCompare_strict_weak_order l]
    by blast
  have k: "FlatMap_keys m = [0, 3]" "FlatMap_values m = [0, 9]" using map_ops_run r(1) by simp_all
  have e: "FlatSet_elements s = [3, 4, 7]" using set_ops_run r(2) by simp
  have "\<exists>m'. FlatMap_add refusing m 3 8 = Some (int 1, m')
          \<and> FlatMap_keys m' = FlatMap_keys m \<and> FlatMap_values m' = (FlatMap_values m)[1 := 8]"
    using um [rule_format, of 1 3 refusing 8] k by (simp add: DefaultCompare_def)
  then have u: "\<exists>m'. FlatMap_add refusing m 3 8 = Some (1, m')
          \<and> FlatMap_keys m' = [0, 3] \<and> FlatMap_values m' = [0, 8]"
    using k by simp
  have "FlatSet_add refusing s 4 = Some (int 1, s)"
    using ad [rule_format, of 1 4 refusing] e by (simp add: DefaultCompare_def)
  then have a: "FlatSet_add refusing s 4 = Some (1, s)" by simp
  show ?thesis using DefaultCompare_strict_weak_order l r k e u a by blast
qed

end
